theory Spec2Isabelle
  imports
    Complex_Main
    "HOL-Library.Product_Lexorder"
    "HOL-Library.Multiset"
    "HOL-Library.Stream"
begin

section \<open>The autonomous snake of \<^verbatim>\<open>app.py\<close>\<close>

text \<open>
  The program keeps every position in pixels: a cell is the pair of the pixel
  coordinates of its top-left corner, a multiple of \<^verbatim>\<open>GRID_SIZE\<close>. The
  \<^verbatim>\<open>Vector2\<close> objects of \<^verbatim>\<open>self.position\<close> hold floats, but every
  coordinate the program ever stores is an integer of small magnitude (sums of
  multiples of 20), which a float represents exactly and which compares equal to
  the \<^verbatim>\<open>int\<close> of the same value; cells are therefore pairs of \<open>int\<close>.
\<close>

subsection \<open>Screen settings\<close>

definition WIDTH :: int where
  "WIDTH = 640"

definition HEIGHT :: int where
  "HEIGHT = 480"

definition GRID_SIZE :: int where
  "GRID_SIZE = 20"

type_synonym cell = "int \<times> int"

text \<open>The exceptions the modelled statements can raise.\<close>

datatype error = KeyError | IndexError | ValueError | TypeError | UnboundLocalError

subsection \<open>\<^verbatim>\<open>SnakeAI.heuristic\<close>\<close>

definition heuristic :: "cell \<Rightarrow> cell \<Rightarrow> int" where
  "heuristic a b = \<bar>fst b - fst a\<bar> + \<bar>snd b - snd a\<bar>"

subsection \<open>The frontier: \<^verbatim>\<open>heapq\<close>\<close>

text \<open>
  The frontier is a Python list kept as a binary heap by the standard library's
  \<^verbatim>\<open>heapq\<close>. Its functions are modelled as the library writes them:
  \<^verbatim>\<open>_siftdown\<close> moves the item at \<open>pos\<close> towards the root while it is smaller
  than its parent, \<^verbatim>\<open>_siftup\<close> moves the smaller child up until a leaf is
  reached and then sifts the displaced item down from there; \<^verbatim>\<open>heappush\<close>
  appends and sifts down, \<^verbatim>\<open>heappop\<close> removes the last item, puts it at the
  root and sifts up (and raises \<^verbatim>\<open>IndexError\<close> on an empty heap). The only
  comparison is \<^verbatim>\<open><\<close>. The items are the tuples \<^verbatim>\<open>(priority, cell)\<close>,
  which Python compares lexicographically: first the priority, then the cell's
  x, then its y; that is the order of \<open>int \<times> int \<times> int\<close> here.
\<close>

function siftdown_loop :: "'a::linorder list \<Rightarrow> nat \<Rightarrow> 'a \<Rightarrow> nat \<Rightarrow> 'a list" where
  "siftdown_loop heap startpos newitem pos =
     (if pos > startpos then
        (let parentpos = (pos - 1) div 2;
             parent = heap ! parentpos in
         if newitem < parent
         then siftdown_loop (heap[pos := parent]) startpos newitem parentpos
         else heap[pos := newitem])
      else heap[pos := newitem])"
  by pat_completeness auto

termination
  by (relation "measure (\<lambda>(heap, startpos, newitem, pos). pos)") auto

definition siftdown :: "'a::linorder list \<Rightarrow> nat \<Rightarrow> nat \<Rightarrow> 'a list" where
  "siftdown heap startpos pos = siftdown_loop heap startpos (heap ! pos) pos"

function siftup_loop :: "'a::linorder list \<Rightarrow> nat \<Rightarrow> nat \<times> 'a list" where
  "siftup_loop heap pos =
     (let endpos = length heap;
          childpos = 2 * pos + 1 in
      if childpos < endpos then
        (let rightpos = childpos + 1;
             childpos = (if rightpos < endpos \<and> \<not> heap ! childpos < heap ! rightpos
                         then rightpos else childpos) in
         siftup_loop (heap[pos := heap ! childpos]) childpos)
      else (pos, heap))"
  by pat_completeness auto

termination
  by (relation "measure (\<lambda>(heap, pos). length heap - pos)") (auto simp: Let_def)

definition siftup :: "'a::linorder list \<Rightarrow> nat \<Rightarrow> 'a list" where
  "siftup heap pos =
     (let newitem = heap ! pos;
          (leaf, heap') = siftup_loop heap pos in
      siftdown (heap'[leaf := newitem]) pos leaf)"

definition heappush :: "'a::linorder list \<Rightarrow> 'a \<Rightarrow> 'a list" where
  "heappush heap item = siftdown (heap @ [item]) 0 (length heap)"

definition heappop :: "'a::linorder list \<Rightarrow> error + 'a \<times> 'a list" where
  "heappop heap =
     (if heap = [] then Inl IndexError
      else
        (let lastelt = last heap;
             heap = butlast heap in
         if heap \<noteq> [] then
           (let returnitem = heap ! 0;
                heap = heap[0 := lastelt] in
            Inr (returnitem, siftup heap 0))
         else Inr (lastelt, heap)))"

type_synonym entry = "int \<times> cell"

subsection \<open>\<^verbatim>\<open>SnakeAI.astar\<close>\<close>

text \<open>
  The local variables of \<^verbatim>\<open>astar\<close>. \<^verbatim>\<open>came_from[start]\<close> is Python's
  \<^verbatim>\<open>None\<close>, so the values of \<open>came_from\<close> are optional cells; \<open>current\<close> is
  unbound until the first pop. The parameter \<open>body\<close> is the list
  \<^verbatim>\<open>self.position\<close>, which \<^verbatim>\<open>astar\<close> reads at line 109.
\<close>

record astar_state =
  open_list :: "entry list"
  came_from :: "cell \<rightharpoonup> cell option"
  cost_so_far :: "cell \<rightharpoonup> nat"
  current :: "cell option"

definition astar_init :: "cell \<Rightarrow> cell \<Rightarrow> astar_state" where
  "astar_init start end' =
     \<lparr>open_list = heappush [] (heuristic start end', start),
      came_from = [start \<mapsto> None],
      cost_so_far = [start \<mapsto> 0],
      current = None\<rparr>"

definition directions :: "(int \<times> int) list" where
  "directions = [(1, 0), (-1, 0), (0, 1), (0, -1)]"

text \<open>Line 106: the successor of \<open>cur\<close> in direction \<open>d\<close>.\<close>

definition successor :: "cell \<Rightarrow> int \<times> int \<Rightarrow> cell" where
  "successor cur d = (fst cur + fst d * GRID_SIZE, snd cur + snd d * GRID_SIZE)"

text \<open>Lines 107 to 109: the condition under which the successor is skipped.\<close>

definition skipped :: "cell list \<Rightarrow> cell \<Rightarrow> bool" where
  "skipped body nxt \<longleftrightarrow>
     fst nxt < 0 \<or> fst nxt \<ge> WIDTH \<or> snd nxt < 0 \<or> snd nxt \<ge> HEIGHT \<or> nxt \<in> set body"

text \<open>The body of the \<^verbatim>\<open>for dx, dy\<close> loop (lines 106 to 117), for one direction.\<close>

definition astar_neighbor ::
  "cell list \<Rightarrow> cell \<Rightarrow> cell \<Rightarrow> astar_state \<Rightarrow> int \<times> int \<Rightarrow> error + astar_state" where
  "astar_neighbor body end' cur st d =
     (let nxt = successor cur d in
      if skipped body nxt then Inr st
      else
        (case cost_so_far st cur of
           None \<Rightarrow> Inl KeyError
         | Some c \<Rightarrow>
            (let new_cost = c + 1 in
             if (case cost_so_far st nxt of None \<Rightarrow> True | Some old \<Rightarrow> new_cost < old)
             then Inr (st\<lparr>cost_so_far := (cost_so_far st)(nxt \<mapsto> new_cost),
                         open_list := heappush (open_list st) (int new_cost + heuristic nxt end', nxt),
                         came_from := (came_from st)(nxt \<mapsto> Some cur)\<rparr>)
             else Inr st)))"

text \<open>The \<^verbatim>\<open>for\<close> loop over the directions; an exception leaves it.\<close>

fun astar_neighbors ::
  "cell list \<Rightarrow> cell \<Rightarrow> cell \<Rightarrow> (int \<times> int) list \<Rightarrow> astar_state \<Rightarrow> error + astar_state" where
  "astar_neighbors body end' cur [] st = Inr st"
| "astar_neighbors body end' cur (d # ds) st =
     (case astar_neighbor body end' cur st d of
        Inl e \<Rightarrow> Inl e
      | Inr st' \<Rightarrow> astar_neighbors body end' cur ds st')"

text \<open>Line 101: the pop, which binds \<open>current\<close>; the popped cell is returned with the state.\<close>

definition astar_pop :: "astar_state \<Rightarrow> error + cell \<times> astar_state" where
  "astar_pop st =
     (case heappop (open_list st) of
        Inl e \<Rightarrow> Inl e
      | Inr (item, rest) \<Rightarrow> Inr (snd item, st\<lparr>open_list := rest, current := Some (snd item)\<rparr>))"

text \<open>
  The \<^verbatim>\<open>while open_list\<close> loop, lines 100 to 117. That it terminates on
  every state is proved below, after the lemmas that the proof needs.
\<close>

function astar_loop :: "cell list \<Rightarrow> cell \<Rightarrow> astar_state \<Rightarrow> error + astar_state" where
  "astar_loop body end' st =
     (if open_list st = [] then Inr st
      else
        (case astar_pop st of
           Inl e \<Rightarrow> Inl e
         | Inr (cur, st1) \<Rightarrow>
            if cur = end' then Inr st1
            else
              (case astar_neighbors body end' cur directions st1 of
                 Inl e \<Rightarrow> Inl e
               | Inr st2 \<Rightarrow> astar_loop body end' st2)))"
  by pat_completeness auto

text \<open>
  Lines 122 to 127: the walk back along \<open>came_from\<close>. Nothing in the loop itself
  bounds it, so it is a partial function: \<open>None\<close> is a walk that never ends.
  Reading \<^verbatim>\<open>came_from\<close> at an absent key raises \<^verbatim>\<open>KeyError\<close>; so does the
  step after reading Python's \<^verbatim>\<open>None\<close> at a cell other than \<open>start\<close>.
\<close>

partial_function (option) reconstruct ::
  "(cell \<rightharpoonup> cell option) \<Rightarrow> cell \<Rightarrow> cell \<Rightarrow> cell list \<Rightarrow> (error + cell list) option" where
  "reconstruct cf start cur path =
     (if cur \<noteq> start then
        (case cf cur of
           None \<Rightarrow> Some (Inl KeyError)
         | Some None \<Rightarrow> Some (Inl KeyError)
         | Some (Some prev) \<Rightarrow> reconstruct cf start prev (path @ [cur]))
      else Some (Inr (rev (path @ [start]))))"

declare reconstruct.simps [code]

text \<open>
  \<^verbatim>\<open>astar\<close> as a whole. The outer \<open>option\<close> is \<open>None\<close> when the call does not
  return; \<open>Inl\<close> is an exception; \<open>Inr None\<close> is the returned \<^verbatim>\<open>None\<close>.
\<close>

definition astar :: "cell list \<Rightarrow> cell \<Rightarrow> cell \<Rightarrow> (error + cell list option) option" where
  "astar body start end' =
     (case astar_loop body end' (astar_init start end') of
        Inl e \<Rightarrow> Some (Inl e)
      | Inr st \<Rightarrow>
          if came_from st end' = None then Some (Inr None)
          else
            (case current st of
               None \<Rightarrow> Some (Inl UnboundLocalError)
             | Some cur \<Rightarrow>
                (case reconstruct (came_from st) start cur [] of
                   None \<Rightarrow> None
                 | Some (Inl e) \<Rightarrow> Some (Inl e)
                 | Some (Inr path) \<Rightarrow> Some (Inr (Some path)))))"

subsection \<open>The snake\<close>

text \<open>
  The attributes of a \<^verbatim>\<open>SnakeAI\<close> object, with the state of the random number
  generator that \<^verbatim>\<open>generate_food\<close> draws from: the stream of the numbers it
  will produce. \<open>food\<close> is \<^verbatim>\<open>None\<close> until \<^verbatim>\<open>generate_food\<close> has run.
\<close>

record snake =
  position :: "cell list"
  direction :: "real \<times> real"
  snake_length :: nat
  food :: "cell option"
  score :: nat
  rng :: "nat stream"

text \<open>
  \<^verbatim>\<open>random.randint(a, b)\<close> returns some integer between \<open>a\<close> and \<open>b\<close>, both
  included; which one is decided by the next number \<open>r\<close> of the stream.
\<close>

definition randint :: "int \<Rightarrow> int \<Rightarrow> nat \<Rightarrow> int" where
  "randint a b r = a + int r mod (b - a + 1)"

partial_function (option) generate_food :: "snake \<Rightarrow> snake option" where
  "generate_food s =
     (let x = randint 0 (WIDTH div GRID_SIZE - 1) (shd (rng s)) * GRID_SIZE;
          y = randint 0 (HEIGHT div GRID_SIZE - 1) (shd (stl (rng s))) * GRID_SIZE;
          new_food = (x, y);
          s' = s\<lparr>rng := stl (stl (rng s))\<rparr> in
      if new_food \<notin> set (position s) then Some (s'\<lparr>food := Some new_food\<rparr>)
      else generate_food s')"

text \<open>\<^verbatim>\<open>SnakeAI.__init__\<close>; \<open>r\<close> is the state of the random number generator.\<close>

definition SnakeAI_init :: "nat stream \<Rightarrow> snake option" where
  "SnakeAI_init r =
     generate_food
       \<lparr>position = [(5 * GRID_SIZE, 5 * GRID_SIZE)],
        direction = (1, 0),
        snake_length = 1,
        food = None,
        score = 0,
        rng = r\<rparr>"

text \<open>
  \<^verbatim>\<open>Vector2.normalize\<close>, which raises \<^verbatim>\<open>ValueError\<close> on the zero vector. The
  direction is the only attribute that is not a whole number in general; it is
  modelled over the reals.
\<close>

definition normalize_vector :: "real \<times> real \<Rightarrow> error + real \<times> real" where
  "normalize_vector v =
     (let l = sqrt (fst v * fst v + snd v * snd v) in
      if l = 0 then Inl ValueError else Inr (fst v / l, snd v / l))"

text \<open>
  \<^verbatim>\<open>SnakeAI.move\<close>. \<open>None\<close> is a call that does not return (the search for new
  food can go on forever); \<open>Inl\<close> is an exception, \<open>Inr\<close> the object after the call.
\<close>

definition move :: "snake \<Rightarrow> (error + snake) option" where
  "move s =
     (case position s of
        [] \<Rightarrow> Some (Inl IndexError)
      | start # _ \<Rightarrow>
         (case food s of
            None \<Rightarrow> Some (Inl TypeError)
          | Some target \<Rightarrow>
             (case astar (position s) start target of
                None \<Rightarrow> None
              | Some (Inl e) \<Rightarrow> Some (Inl e)
              | Some (Inr None) \<Rightarrow> Some (Inr s)
              | Some (Inr (Some path)) \<Rightarrow>
                 if length path < 2 then Some (Inr s)
                 else
                   (let next_pos = path ! 1 in
                    case normalize_vector (real_of_int (fst next_pos - fst start),
                                    real_of_int (snd next_pos - snd start)) of
                      Inl e \<Rightarrow> Some (Inl e)
                    | Inr dir \<Rightarrow>
                       (let s1 = s\<lparr>direction := dir, position := next_pos # position s\<rparr> in
                        if next_pos = target then
                          (case generate_food
                                  (s1\<lparr>snake_length := snake_length s1 + 1,
                                      score := score s1 + 1\<rparr>) of
                             None \<Rightarrow> None
                           | Some s2 \<Rightarrow> Some (Inr s2))
                        else Some (Inr (s1\<lparr>position := butlast (position s1)\<rparr>)))))))"

text \<open>\<^verbatim>\<open>SnakeAI.check_collision\<close>.\<close>

definition check_collision :: "snake \<Rightarrow> error + bool" where
  "check_collision s =
     (case position s of
        [] \<Rightarrow> Inl IndexError
      | head # rest \<Rightarrow>
         if fst head < 0 \<or> fst head \<ge> WIDTH \<or> snd head < 0 \<or> snd head \<ge> HEIGHT then Inr True
         else if head \<in> set rest then Inr True
         else Inr False)"

text \<open>The states a game can be in: after \<^verbatim>\<open>SnakeAI()\<close>, and after each \<^verbatim>\<open>move\<close>.\<close>

inductive reachable :: "snake \<Rightarrow> bool" where
  reachable_init: "SnakeAI_init r = Some s \<Longrightarrow> reachable s"
| reachable_move: "reachable s \<Longrightarrow> move s = Some (Inr s') \<Longrightarrow> reachable s'"

section \<open>Notions for the properties\<close>

subsection \<open>The measure of the search loop\<close>

text \<open>
  The \<^verbatim>\<open>while open_list\<close> loop terminates because every push either discovers
  one of the finitely many cells inside the screen or lowers the cost of one, and
  an iteration without a push shortens the frontier. The three quantities of
  that argument:
\<close>

definition grid_cells :: "cell set" where
  "grid_cells = {0..<WIDTH} \<times> {0..<HEIGHT}"

definition undiscovered :: "(cell \<rightharpoonup> nat) \<Rightarrow> nat" where
  "undiscovered cs = card {c \<in> grid_cells. cs c = None}"

definition known_cost :: "(cell \<rightharpoonup> nat) \<Rightarrow> nat" where
  "known_cost cs = (\<Sum>c \<in> grid_cells. case cs c of None \<Rightarrow> 0 | Some k \<Rightarrow> k)"

definition cost_below :: "(cell \<rightharpoonup> nat) \<Rightarrow> (cell \<rightharpoonup> nat) \<Rightarrow> bool" where
  "cost_below cs' cs \<longleftrightarrow>
     undiscovered cs' < undiscovered cs \<or>
     undiscovered cs' = undiscovered cs \<and> known_cost cs' < known_cost cs"

subsection \<open>The heap order\<close>

text \<open>
  The parent of position \<open>i\<close> in the heap, and the heap order: no item is
  smaller than its parent. The other two predicates describe a heap in the
  middle of a sift: in order except at one position.
\<close>

definition parent :: "nat \<Rightarrow> nat" where
  "parent i = (i - 1) div 2"

definition heap_inv :: "'a::linorder list \<Rightarrow> bool" where
  "heap_inv h \<longleftrightarrow> (\<forall>i. 0 < i \<and> i < length h \<longrightarrow> h ! parent i \<le> h ! i)"

definition sift_inv :: "'a::linorder list \<Rightarrow> nat \<Rightarrow> bool" where
  "sift_inv h pos \<longleftrightarrow>
     pos < length h \<and>
     (\<forall>i. 0 < i \<and> i < length h \<and> i \<noteq> pos \<longrightarrow> h ! parent i \<le> h ! i) \<and>
     (\<forall>c. 0 < pos \<and> 0 < c \<and> c < length h \<and> parent c = pos \<longrightarrow> h ! parent pos \<le> h ! c)"

definition hole_inv :: "'a::linorder list \<Rightarrow> nat \<Rightarrow> bool" where
  "hole_inv h pos \<longleftrightarrow>
     pos < length h \<and>
     (\<forall>i. 0 < i \<and> i < length h \<and> i \<noteq> pos \<and> parent i \<noteq> pos \<longrightarrow> h ! parent i \<le> h ! i) \<and>
     (\<forall>c. 0 < pos \<and> 0 < c \<and> c < length h \<and> parent c = pos \<longrightarrow> h ! parent pos \<le> h ! c)"

subsection \<open>Invariants of the search loop\<close>

text \<open>
  Two facts hold whenever the loop is at its head. The dictionaries form a tree
  rooted at \<open>start\<close>: every other key of \<open>came_from\<close> is a cell that passed
  the test of lines 107 to 109, one step away from its predecessor, whose cost is
  strictly smaller. And the frontier holds only cells with a cost, among them
  \<open>end'\<close> as soon as \<open>came_from\<close> has it.
\<close>

definition chain_ok :: "cell list \<Rightarrow> cell \<Rightarrow> (cell \<rightharpoonup> cell option) \<Rightarrow> (cell \<rightharpoonup> nat) \<Rightarrow> bool" where
  "chain_ok body start cf cs \<longleftrightarrow>
     cf start = Some None \<and> cs start = Some 0 \<and>
     (\<forall>c. cs c \<noteq> None \<longrightarrow> cf c \<noteq> None) \<and>
     (\<forall>c. cf c = Some None \<longrightarrow> c = start) \<and>
     (\<forall>c p. cf c = Some (Some p) \<longrightarrow>
        c \<noteq> start \<and> \<not> skipped body c \<and> (\<exists>d \<in> set directions. c = successor p d) \<and>
        (\<exists>k j. cs c = Some k \<and> cs p = Some j \<and> j < k))"

definition chain_inv :: "cell list \<Rightarrow> cell \<Rightarrow> astar_state \<Rightarrow> bool" where
  "chain_inv body start st \<longleftrightarrow> chain_ok body start (came_from st) (cost_so_far st)"

definition frontier_inv :: "cell \<Rightarrow> astar_state \<Rightarrow> bool" where
  "frontier_inv end' st \<longleftrightarrow>
     (\<forall>e \<in> set (open_list st). cost_so_far st (snd e) \<noteq> None) \<and>
     (came_from st end' \<noteq> None \<longrightarrow> end' \<in> snd ` set (open_list st))"

text \<open>The states at the head of the \<^verbatim>\<open>while\<close> loop in a run of \<^verbatim>\<open>astar\<close>.\<close>

inductive loop_state :: "cell list \<Rightarrow> cell \<Rightarrow> cell \<Rightarrow> astar_state \<Rightarrow> bool"
  for body :: "cell list" and start :: cell and end' :: cell where
  loop_init: "loop_state body start end' (astar_init start end')"
| loop_step: "loop_state body start end' st \<Longrightarrow> astar_pop st = Inr (cur, st1) \<Longrightarrow>
     cur \<noteq> end' \<Longrightarrow> astar_neighbors body end' cur directions st1 = Inr st2 \<Longrightarrow>
     loop_state body start end' st2"

text \<open>
  The frontier is in heap order, and the priority of each entry is a cost, not
  below the cost its cell has by now, plus the heuristic of the cell.
\<close>

definition prio_inv :: "cell \<Rightarrow> astar_state \<Rightarrow> bool" where
  "prio_inv end' st \<longleftrightarrow>
     heap_inv (open_list st) \<and>
     (\<forall>e \<in> set (open_list st). \<exists>g g'. fst e = int g + heuristic (snd e) end' \<and>
         cost_so_far st (snd e) = Some g' \<and> g' \<le> g)"

subsection \<open>The log of a run\<close>

text \<open>
  The assignments \<^verbatim>\<open>cost_so_far[next] = new_cost\<close> of line 114 during one
  expansion, in order, each as the pair of the cell and the cost it was given.
  The assignment is made only to a cell without a cost or with a larger one, so
  a round of the \<^verbatim>\<open>for\<close> loop made it exactly when the cost of its successor
  is not what it was before the round.
\<close>

fun assignments ::
  "cell list \<Rightarrow> cell \<Rightarrow> cell \<Rightarrow> (int \<times> int) list \<Rightarrow> astar_state \<Rightarrow> (cell \<times> nat) list" where
  "assignments body end' cur [] st = []"
| "assignments body end' cur (d # ds) st =
     (case astar_neighbor body end' cur st d of
        Inl e \<Rightarrow> []
      | Inr st' \<Rightarrow>
          (case cost_so_far st' (successor cur d) of
             None \<Rightarrow> []
           | Some g \<Rightarrow> if cost_so_far st (successor cur d) = Some g then [] else [(successor cur d, g)])
          @ assignments body end' cur ds st')"

text \<open>
  The states at the head of the \<^verbatim>\<open>while\<close> loop, each with the log of the
  assignments to \<^verbatim>\<open>cost_so_far\<close> made before it: that of line 98, then those
  of each expansion.
\<close>

inductive run_log :: "cell list \<Rightarrow> cell \<Rightarrow> cell \<Rightarrow> astar_state \<Rightarrow> (cell \<times> nat) multiset \<Rightarrow> bool"
  for body :: "cell list" and start :: cell and end' :: cell where
  log_init: "run_log body start end' (astar_init start end') {#(start, 0)#}"
| log_step: "run_log body start end' st L \<Longrightarrow> astar_pop st = Inr (cur, st1) \<Longrightarrow>
     cur \<noteq> end' \<Longrightarrow> astar_neighbors body end' cur directions st1 = Inr st2 \<Longrightarrow>
     run_log body start end' st2 (L + mset (assignments body end' cur directions st1))"

subsection \<open>Paths\<close>

text \<open>
  A list of cells in which each cell is followed by one of its four successors
  (line 106): an orthogonal neighbour, one \<open>GRID_SIZE\<close> away.
\<close>

fun stepwise :: "cell list \<Rightarrow> bool" where
  "stepwise (a # b # rest) \<longleftrightarrow> b \<in> set (map (successor a) directions) \<and> stepwise (b # rest)"
| "stepwise [a] \<longleftrightarrow> True"
| "stepwise [] \<longleftrightarrow> True"

text \<open>
  A path from \<open>start\<close> to \<open>end'\<close> over free cells: orthogonal steps, every cell
  after the first inside the screen and outside the body.
\<close>

definition free_path :: "cell list \<Rightarrow> cell \<Rightarrow> cell \<Rightarrow> cell list \<Rightarrow> bool" where
  "free_path body start end' path \<longleftrightarrow>
     path \<noteq> [] \<and> hd path = start \<and> last path = end' \<and> stepwise path \<and>
     list_all (\<lambda>c. \<not> skipped body c) (tl path)"

subsection \<open>Observing a run\<close>

text \<open>
  The cells the loop expands, in order, in its first \<open>n\<close> iterations: the same
  steps as \<open>astar_loop\<close>, recording each popped cell whose successors are generated.
\<close>

fun expansions :: "nat \<Rightarrow> cell list \<Rightarrow> cell \<Rightarrow> astar_state \<Rightarrow> cell list" where
  "expansions 0 body end' st = []"
| "expansions (Suc n) body end' st =
     (if open_list st = [] then []
      else
        (case astar_pop st of
           Inl e \<Rightarrow> []
         | Inr (cur, st1) \<Rightarrow>
            if cur = end' then []
            else
              (case astar_neighbors body end' cur directions st1 of
                 Inl e \<Rightarrow> [cur]
               | Inr st2 \<Rightarrow> cur # expansions n body end' st2)))"

text \<open>
  The state at the head of the loop after \<open>n\<close> iterations (or the state in which
  the loop ended before that): \<open>astar_loop\<close>, stopped after \<open>n\<close> rounds.
\<close>

fun astar_steps :: "nat \<Rightarrow> cell list \<Rightarrow> cell \<Rightarrow> astar_state \<Rightarrow> error + astar_state" where
  "astar_steps 0 body end' st = Inr st"
| "astar_steps (Suc n) body end' st =
     (if open_list st = [] then Inr st
      else
        (case astar_pop st of
           Inl e \<Rightarrow> Inl e
         | Inr (cur, st1) \<Rightarrow>
            if cur = end' then Inr st1
            else
              (case astar_neighbors body end' cur directions st1 of
                 Inl e \<Rightarrow> Inl e
               | Inr st2 \<Rightarrow> astar_steps n body end' st2)))"

subsection \<open>Food and moves\<close>

text \<open>The candidate that \<^verbatim>\<open>generate_food\<close> draws first from a stream.\<close>

definition food_draw :: "nat stream \<Rightarrow> cell" where
  "food_draw r =
     (randint 0 (WIDTH div GRID_SIZE - 1) (shd r) * GRID_SIZE,
      randint 0 (HEIGHT div GRID_SIZE - 1) (shd (stl r)) * GRID_SIZE)"

text \<open>
  What \<^verbatim>\<open>generate_food\<close> leaves behind when it returns: only \<open>food\<close> (and
  the random numbers) changed, and the food is a cell of the screen outside the body.
\<close>

definition food_post :: "snake \<Rightarrow> snake \<Rightarrow> bool" where
  "food_post s s' \<longleftrightarrow>
     position s' = position s \<and> direction s' = direction s \<and>
     snake_length s' = snake_length s \<and> score s' = score s \<and>
     (\<exists>f. food s' = Some f \<and> f \<notin> set (position s) \<and> \<not> skipped [] f)"

text \<open>The stream after one more candidate has been drawn.\<close>

definition next_draw :: "nat stream \<Rightarrow> nat stream" where
  "next_draw r = stl (stl r)"

text \<open>A cell inside the screen.\<close>

definition in_bounds :: "cell \<Rightarrow> bool" where
  "in_bounds c \<longleftrightarrow> 0 \<le> fst c \<and> fst c < WIDTH \<and> 0 \<le> snd c \<and> snd c < HEIGHT"

text \<open>The invariant of the segment sequence.\<close>

definition length_inv :: "snake \<Rightarrow> bool" where
  "length_inv s \<longleftrightarrow> position s \<noteq> [] \<and> snake_length s = length (position s)"

text \<open>
  The cell the head moves to in this call of \<^verbatim>\<open>move\<close>: \<^verbatim>\<open>next_pos\<close> of
  line 143, when that line is reached.
\<close>

definition next_cell :: "snake \<Rightarrow> cell option" where
  "next_cell s =
     (case position s of
        [] \<Rightarrow> None
      | start # _ \<Rightarrow>
         (case food s of
            None \<Rightarrow> None
          | Some target \<Rightarrow>
             (case astar (position s) start target of
                Some (Inr (Some path)) \<Rightarrow> if 2 \<le> length path then Some (path ! 1) else None
              | _ \<Rightarrow> None)))"

section \<open>Lemmas\<close>

subsection \<open>The heap keeps its items\<close>

declare siftdown_loop.simps [simp del] siftup_loop.simps [simp del]

lemma mset_update_swap:
  assumes "i < length xs" "j < length xs"
  shows "mset (xs[i := xs ! j, j := v]) = mset (xs[i := v])"
proof (cases "i = j")
  case True
  then show ?thesis by simp
next
  case False
  with assms show ?thesis by (simp add: mset_update)
qed

lemma length_siftdown_loop [simp]:
  "length (siftdown_loop heap startpos newitem pos) = length heap"
  by (induction heap startpos newitem pos rule: siftdown_loop.induct)
     (subst siftdown_loop.simps, simp add: Let_def)

lemma mset_siftdown_loop:
  "pos < length heap \<Longrightarrow>
   mset (siftdown_loop heap startpos newitem pos) = mset (heap[pos := newitem])"
proof (induction heap startpos newitem pos rule: siftdown_loop.induct)
  case (1 heap startpos newitem pos)
  show ?case
  proof (cases "pos > startpos \<and> newitem < heap ! ((pos - 1) div 2)")
    case True
    let ?pp = "(pos - 1) div 2"
    have pp: "?pp < length heap" "?pp \<noteq> pos" using 1(2) True by auto
    have "mset (siftdown_loop heap startpos newitem pos) =
          mset (siftdown_loop (heap[pos := heap ! ?pp]) startpos newitem ?pp)"
      using True by (subst siftdown_loop.simps) (simp add: Let_def)
    also have "\<dots> = mset (heap[pos := heap ! ?pp, ?pp := newitem])"
      using 1(1)[of ?pp "heap ! ?pp"] True pp by simp
    also have "\<dots> = mset (heap[pos := newitem])"
      using mset_update_swap[OF 1(2) pp(1)] .
    finally show ?thesis .
  next
    case False
    then show ?thesis by (subst siftdown_loop.simps) (auto simp: Let_def)
  qed
qed

lemma mset_siftdown: "pos < length heap \<Longrightarrow> mset (siftdown heap startpos pos) = mset heap"
  by (simp add: siftdown_def mset_siftdown_loop)

lemma siftup_loop_props:
  "siftup_loop heap pos = (leaf, heap') \<Longrightarrow> pos < length heap \<Longrightarrow>
   length heap' = length heap \<and> leaf < length heap \<and>
   mset (heap'[leaf := v]) = mset (heap[pos := v])"
proof (induction heap pos arbitrary: leaf heap' rule: siftup_loop.induct)
  case (1 heap pos)
  show ?case
  proof (cases "2 * pos + 1 < length heap")
    case False
    with 1(2,3) show ?thesis by (subst (asm) siftup_loop.simps) (simp add: Let_def)
  next
    case True
    define cp where "cp = (if 2 * pos + 1 + 1 < length heap \<and>
                              \<not> heap ! (2 * pos + 1) < heap ! (2 * pos + 1 + 1)
                          then 2 * pos + 1 + 1 else 2 * pos + 1)"
    have cp: "cp < length heap" "cp \<noteq> pos" using True by (auto simp: cp_def)
    have rec: "siftup_loop (heap[pos := heap ! cp]) cp = (leaf, heap')"
      using 1(2) True by (subst (asm) siftup_loop.simps) (auto simp: Let_def cp_def split: if_splits)
    have IH: "length heap' = length (heap[pos := heap ! cp]) \<and> leaf < length (heap[pos := heap ! cp]) \<and>
       mset (heap'[leaf := v]) = mset (heap[pos := heap ! cp, cp := v])"
      using 1(1)[OF refl refl True refl cp_def rec] cp by simp
    with mset_update_swap[OF 1(3) cp(1), of v] show ?thesis by simp
  qed
qed

lemma mset_siftup: "pos < length heap \<Longrightarrow> mset (siftup heap pos) = mset heap"
proof -
  assume p: "pos < length heap"
  obtain leaf heap' where s: "siftup_loop heap pos = (leaf, heap')" by (cases "siftup_loop heap pos")
  from siftup_loop_props[OF s p, of "heap ! pos"] show ?thesis
    by (simp add: siftup_def s mset_siftdown)
qed

lemma mset_heappush: "mset (heappush heap item) = add_mset item (mset heap)"
  by (simp add: heappush_def mset_siftdown)

lemma mset_heappop:
  assumes "heappop heap = Inr (item, rest)"
  shows "mset heap = add_mset item (mset rest)"
proof -
  from assms have ne: "heap \<noteq> []" by (auto simp: heappop_def)
  then have snoc: "heap = butlast heap @ [last heap]" by simp
  show ?thesis
  proof (cases "butlast heap = []")
    case True
    with assms ne have "item = last heap" "rest = []" by (auto simp: heappop_def Let_def)
    with snoc True show ?thesis by (metis append_Nil mset.simps(1) mset.simps(2))
  next
    case False
    have "heappop heap = Inr (butlast heap ! 0, siftup ((butlast heap)[0 := last heap]) 0)"
      unfolding heappop_def Let_def using ne False by (simp only: if_False if_True not_False_eq_True)
    with assms have item: "item = butlast heap ! 0"
      and rest: "rest = siftup ((butlast heap)[0 := last heap]) 0"
      by simp_all
    have pos: "0 < length (butlast heap)" using False by (cases "butlast heap") simp_all
    then have "0 < length ((butlast heap)[0 := last heap])" by (simp only: length_list_update)
    then have "mset rest = mset ((butlast heap)[0 := last heap])"
      unfolding rest by (rule mset_siftup)
    also have "\<dots> = add_mset (last heap) (mset (butlast heap) - {#item#})"
      using pos by (simp only: mset_update item)
    finally have "add_mset item (mset rest) = add_mset (last heap) (mset (butlast heap))"
      using False item by (cases "butlast heap") auto
    also have "\<dots> = mset heap" by (subst (2) snoc) simp
    finally show ?thesis by simp
  qed
qed

subsection \<open>Termination of the search loop\<close>

lemma finite_grid_cells: "finite grid_cells"
  by (simp add: grid_cells_def)

lemma cost_below_trans: "cost_below a b \<Longrightarrow> cost_below b c \<Longrightarrow> cost_below a c"
  by (auto simp: cost_below_def)

lemma undiscovered_discover:
  assumes "c \<in> grid_cells" "cs c = None"
  shows "undiscovered (cs(c \<mapsto> k)) < undiscovered cs"
proof -
  have eq: "{x \<in> grid_cells. (cs(c \<mapsto> k)) x = None} = {x \<in> grid_cells. cs x = None} - {c}"
    by auto
  have "c \<in> {x \<in> grid_cells. cs x = None}" using assms by simp
  moreover have "finite {x \<in> grid_cells. cs x = None}" using finite_grid_cells by simp
  ultimately have "card ({x \<in> grid_cells. cs x = None} - {c}) < card {x \<in> grid_cells. cs x = None}"
    by (intro card_Diff1_less)
  then show ?thesis
    unfolding undiscovered_def eq .
qed

lemma undiscovered_improve:
  assumes "cs c = Some old"
  shows "undiscovered (cs(c \<mapsto> k)) = undiscovered cs"
proof -
  have "{x \<in> grid_cells. (cs(c \<mapsto> k)) x = None} = {x \<in> grid_cells. cs x = None}"
    using assms by auto
  then show ?thesis by (simp add: undiscovered_def)
qed

lemma known_cost_improve:
  assumes "c \<in> grid_cells" "cs c = Some old" "k < old"
  shows "known_cost (cs(c \<mapsto> k)) < known_cost cs"
proof -
  let ?f = "\<lambda>m x. case m x of None \<Rightarrow> 0 | Some (j::nat) \<Rightarrow> j"
  have split: "\<And>m. (\<Sum>x \<in> grid_cells. ?f m x) = ?f m c + (\<Sum>x \<in> grid_cells - {c}. ?f m x)"
    using assms(1) finite_grid_cells by (simp add: sum.remove)
  have same: "(\<Sum>x \<in> grid_cells - {c}. ?f (cs(c \<mapsto> k)) x) = (\<Sum>x \<in> grid_cells - {c}. ?f cs x)"
    by (rule sum.cong) auto
  show ?thesis
    unfolding known_cost_def split[of "cs(c \<mapsto> k)"] split[of cs] same
    using assms by simp
qed

lemma not_skipped_grid: "\<not> skipped body nxt \<Longrightarrow> nxt \<in> grid_cells"
  by (cases nxt) (auto simp: skipped_def grid_cells_def)

text \<open>What one direction does to the state: nothing, or one push with its two dictionary updates.\<close>

lemma astar_neighbor_cases:
  assumes "astar_neighbor body end' cur st d = Inr st'"
  shows "st' = st \<or>
    (\<exists>c. \<not> skipped body (successor cur d) \<and> cost_so_far st cur = Some c \<and>
       (case cost_so_far st (successor cur d) of None \<Rightarrow> True | Some old \<Rightarrow> c + 1 < old) \<and>
       st' = st\<lparr>cost_so_far := (cost_so_far st)(successor cur d \<mapsto> c + 1),
                open_list := heappush (open_list st)
                   (int (c + 1) + heuristic (successor cur d) end', successor cur d),
                came_from := (came_from st)(successor cur d \<mapsto> Some cur)\<rparr>)"
  using assms
  by (auto simp: astar_neighbor_def Let_def split: if_splits option.splits)

lemma astar_neighbor_progress:
  assumes "astar_neighbor body end' cur st d = Inr st'"
  shows "st' = st \<or> cost_below (cost_so_far st') (cost_so_far st)"
proof -
  let ?n = "successor cur d"
  from astar_neighbor_cases[OF assms] show ?thesis
  proof
    assume "st' = st"
    then show ?thesis by simp
  next
    assume "\<exists>c. \<not> skipped body ?n \<and> cost_so_far st cur = Some c \<and>
       (case cost_so_far st ?n of None \<Rightarrow> True | Some old \<Rightarrow> c + 1 < old) \<and>
       st' = st\<lparr>cost_so_far := (cost_so_far st)(?n \<mapsto> c + 1),
                open_list := heappush (open_list st) (int (c + 1) + heuristic ?n end', ?n),
                came_from := (came_from st)(?n \<mapsto> Some cur)\<rparr>"
    then obtain c where ns: "\<not> skipped body ?n"
      and better: "case cost_so_far st ?n of None \<Rightarrow> True | Some old \<Rightarrow> c + 1 < old"
      and st': "cost_so_far st' = (cost_so_far st)(?n \<mapsto> c + 1)"
      by auto
    from ns have in_grid: "?n \<in> grid_cells" by (rule not_skipped_grid)
    show ?thesis
    proof (cases "cost_so_far st ?n")
      case None
      with undiscovered_discover[of ?n "cost_so_far st", OF in_grid None] st' show ?thesis
        by (simp add: cost_below_def)
    next
      case (Some old)
      with better have "c + 1 < old" by simp
      with undiscovered_improve[of "cost_so_far st" ?n, OF Some]
        known_cost_improve[of ?n "cost_so_far st", OF in_grid Some] st'
      show ?thesis by (simp add: cost_below_def)
    qed
  qed
qed

lemma astar_neighbors_progress:
  "astar_neighbors body end' cur ds st = Inr st' \<Longrightarrow>
   st' = st \<or> cost_below (cost_so_far st') (cost_so_far st)"
proof (induction ds arbitrary: st)
  case Nil
  then show ?case by simp
next
  case (Cons d ds)
  then obtain st1 where s1: "astar_neighbor body end' cur st d = Inr st1"
    and s2: "astar_neighbors body end' cur ds st1 = Inr st'"
    by (auto split: sum.splits)
  from astar_neighbor_progress[OF s1] Cons.IH[OF s2] show ?case
    by (auto intro: cost_below_trans)
qed

lemma astar_pop_Inr:
  assumes "astar_pop st = Inr (cur, st1)"
  shows "\<exists>item rest. heappop (open_list st) = Inr (item, rest) \<and> cur = snd item \<and>
           st1 = st\<lparr>open_list := rest, current := Some cur\<rparr>"
  using assms by (auto simp: astar_pop_def split: sum.splits)

lemma astar_pop_shrinks:
  assumes "astar_pop st = Inr (cur, st1)"
  shows "cost_so_far st1 = cost_so_far st \<and> length (open_list st1) < length (open_list st)"
proof -
  from astar_pop_Inr[OF assms] obtain item rest
    where h: "heappop (open_list st) = Inr (item, rest)"
      and st1: "st1 = st\<lparr>open_list := rest, current := Some cur\<rparr>"
    by blast
  from mset_heappop[OF h] have "size (mset (open_list st)) = size (add_mset item (mset rest))"
    by simp
  then have "length rest < length (open_list st)" by simp
  with st1 show ?thesis by simp
qed

termination astar_loop
proof (relation "inv_image (less_than <*lex*> less_than <*lex*> less_than)
          (\<lambda>(body, end', st). (undiscovered (cost_so_far st), known_cost (cost_so_far st),
               length (open_list st)))", goal_cases)
  case 1
  show ?case by (intro wf_inv_image wf_lex_prod wf_less_than)
next
  case (2 body end' st popped cur st1 st2)
  from astar_pop_shrinks[OF 2(2)[unfolded 2(3)[symmetric]]] astar_neighbors_progress[OF 2(5)]
  show ?case by (auto simp: cost_below_def)
qed

declare astar_loop.simps [simp del]

subsection \<open>The heap order\<close>

lemma parent_less: "0 < i \<Longrightarrow> parent i < i"
  by (simp add: parent_def)

lemma parent_eq_iff: "0 < c \<Longrightarrow> parent c = p \<longleftrightarrow> c = 2 * p + 1 \<or> c = 2 * p + 2"
  by (simp add: parent_def) arith

lemma heap_inv_least:
  assumes "heap_inv h"
  shows "i < length h \<Longrightarrow> h ! 0 \<le> h ! i"
proof (induction i rule: less_induct)
  case (less i)
  show ?case
  proof (cases "i = 0")
    case True
    then show ?thesis by simp
  next
    case False
    then have "parent i < i" by (simp add: parent_less)
    moreover from this less.prems have "parent i < length h" by simp
    ultimately have "h ! 0 \<le> h ! parent i" by (rule less.IH)
    also have "\<dots> \<le> h ! i" using assms False less.prems by (simp add: heap_inv_def)
    finally show ?thesis .
  qed
qed

lemma siftdown_loop_heap_inv:
  "sift_inv (heap[pos := newitem]) pos \<Longrightarrow> heap_inv (siftdown_loop heap 0 newitem pos)"
proof (induction heap "0::nat" newitem pos rule: siftdown_loop.induct)
  case (1 heap newitem pos)
  let ?H = "heap[pos := newitem]"
  let ?pp = "parent pos"
  from 1(2) have len: "pos < length heap"
    and ord: "\<And>i. 0 < i \<Longrightarrow> i < length heap \<Longrightarrow> i \<noteq> pos \<Longrightarrow> ?H ! parent i \<le> ?H ! i"
    and grand: "\<And>c. 0 < pos \<Longrightarrow> 0 < c \<Longrightarrow> c < length heap \<Longrightarrow> parent c = pos \<Longrightarrow> ?H ! ?pp \<le> ?H ! c"
    by (auto simp: sift_inv_def)
  show ?case
  proof (cases "0 < pos \<and> newitem < heap ! ?pp")
    case True
    then have pp: "?pp < pos" by (simp add: parent_less)
    let ?H' = "heap[pos := heap ! ?pp, ?pp := newitem]"
    have Hpp: "?H ! ?pp = heap ! ?pp" using pp by simp
    have nth': "\<And>k. k < length heap \<Longrightarrow>
        ?H' ! k = (if k = ?pp then newitem else if k = pos then heap ! ?pp else ?H ! k)"
      using pp len by (simp add: nth_list_update)
    have "sift_inv ?H' ?pp"
      unfolding sift_inv_def
    proof (intro conjI allI impI)
      show "?pp < length ?H'" using pp len by simp
    next
      fix i assume i: "0 < i \<and> i < length ?H' \<and> i \<noteq> ?pp"
      then have il: "i < length heap" and pil: "parent i < length heap" and pi: "parent i < i"
        using parent_less[of i] by simp_all
      show "?H' ! parent i \<le> ?H' ! i"
      proof (cases "i = pos")
        case True
        with nth'[OF len] nth'[of ?pp] pp len \<open>0 < pos \<and> newitem < heap ! ?pp\<close>
        show ?thesis by simp
      next
        case False
        then have Hi: "?H' ! i = ?H ! i" using nth'[OF il] i by simp
        have o: "?H ! parent i \<le> ?H ! i" using ord i False by simp
        show ?thesis
        proof (cases "parent i = ?pp")
          case True
          then have "?H' ! parent i = newitem" using nth'[OF pil] by simp
          also have "\<dots> \<le> ?H ! ?pp" using \<open>0 < pos \<and> newitem < heap ! ?pp\<close> Hpp by auto
          also have "\<dots> \<le> ?H ! i" using o True by simp
          finally show ?thesis using Hi by simp
        next
          case np: False
          show ?thesis
          proof (cases "parent i = pos")
            case True
            then have "?H' ! parent i = heap ! ?pp" using nth'[OF pil] pp by simp
            also have "\<dots> \<le> ?H ! i" using grand[of i] i il True \<open>0 < pos \<and> _\<close> Hpp by simp
            finally show ?thesis using Hi by simp
          next
            case False
            then have "?H' ! parent i = ?H ! parent i" using nth'[OF pil] np by simp
            with o Hi show ?thesis by simp
          qed
        qed
      qed
    next
      fix c assume c: "0 < ?pp \<and> 0 < c \<and> c < length ?H' \<and> parent c = ?pp"
      then have cl: "c < length heap" by simp
      from c have ppp: "parent ?pp < ?pp" by (simp add: parent_less)
      then have pppl: "parent ?pp < length heap" using pp len by simp
      have c_ne: "c \<noteq> ?pp" using c parent_less[of c] by auto
      have H'ppp: "?H' ! parent ?pp = ?H ! parent ?pp"
        using nth'[OF pppl] ppp pp by simp
      have o1: "?H ! parent ?pp \<le> ?H ! ?pp" using ord[of ?pp] c pp len by simp
      show "?H' ! parent ?pp \<le> ?H' ! c"
      proof (cases "c = pos")
        case True
        then have "?H' ! c = heap ! ?pp" using nth'[OF cl] pp by simp
        with o1 Hpp H'ppp show ?thesis by simp
      next
        case False
        then have "?H' ! c = ?H ! c" using nth'[OF cl] c_ne by simp
        moreover have "?H ! ?pp \<le> ?H ! c" using ord[of c] c cl False by auto
        ultimately show ?thesis using o1 H'ppp by simp
      qed
    qed
    then have "heap_inv (siftdown_loop (heap[pos := heap ! ?pp]) 0 newitem ?pp)"
      using 1(1)[OF _ refl refl] True by (simp add: parent_def)
    then show ?thesis
      using True by (subst siftdown_loop.simps) (simp add: Let_def parent_def)
  next
    case False
    have res: "siftdown_loop heap 0 newitem pos = ?H"
      using False by (subst siftdown_loop.simps) (auto simp: Let_def parent_def)
    have "heap_inv ?H"
      unfolding heap_inv_def
    proof (intro allI impI)
      fix i assume i: "0 < i \<and> i < length ?H"
      show "?H ! parent i \<le> ?H ! i"
      proof (cases "i = pos")
        case True
        with i have "parent pos < pos" by (simp add: parent_less)
        with False True i len show ?thesis by (simp add: not_less)
      next
        case False
        with ord i show ?thesis by simp
      qed
    qed
    with res show ?thesis by simp
  qed
qed

lemma siftup_loop_hole_inv:
  "hole_inv heap pos \<Longrightarrow> siftup_loop heap pos = (leaf, heap') \<Longrightarrow>
   sift_inv (heap'[leaf := v]) leaf"
proof (induction heap pos arbitrary: leaf heap' rule: siftup_loop.induct)
  case (1 heap pos)
  from 1(2) have len: "pos < length heap"
    and ord: "\<And>i. 0 < i \<Longrightarrow> i < length heap \<Longrightarrow> i \<noteq> pos \<Longrightarrow> parent i \<noteq> pos \<Longrightarrow>
                heap ! parent i \<le> heap ! i"
    and grand: "\<And>c. 0 < pos \<Longrightarrow> 0 < c \<Longrightarrow> c < length heap \<Longrightarrow> parent c = pos \<Longrightarrow>
                heap ! parent pos \<le> heap ! c"
    by (auto simp: hole_inv_def)
  show ?case
  proof (cases "2 * pos + 1 < length heap")
    case False
    with 1(3) have res: "leaf = pos" "heap' = heap"
      by (subst (asm) siftup_loop.simps, simp add: Let_def)+
    have nochild: "\<And>i. 0 < i \<Longrightarrow> i < length heap \<Longrightarrow> parent i \<noteq> pos"
      using False by (auto simp: parent_eq_iff)
    show ?thesis
      unfolding sift_inv_def res
    proof (intro conjI allI impI)
      show "pos < length (heap[pos := v])" using len by simp
    next
      fix i assume i: "0 < i \<and> i < length (heap[pos := v]) \<and> i \<noteq> pos"
      with nochild[of i] ord[of i] show "heap[pos := v] ! parent i \<le> heap[pos := v] ! i"
        by simp
    next
      fix c assume "0 < pos \<and> 0 < c \<and> c < length (heap[pos := v]) \<and> parent c = pos"
      with nochild[of c] show "heap[pos := v] ! parent pos \<le> heap[pos := v] ! c" by simp
    qed
  next
    case True
    define cp where "cp = (if 2 * pos + 1 + 1 < length heap \<and>
                              \<not> heap ! (2 * pos + 1) < heap ! (2 * pos + 1 + 1)
                          then 2 * pos + 1 + 1 else 2 * pos + 1)"
    have cp: "cp < length heap" "pos < cp" "0 < cp" "parent cp = pos"
      using True by (auto simp: cp_def parent_def)
    have smaller: "\<And>s. 0 < s \<Longrightarrow> s < length heap \<Longrightarrow> parent s = pos \<Longrightarrow> heap ! cp \<le> heap ! s"
      by (auto simp: parent_eq_iff cp_def)
    have rec: "siftup_loop (heap[pos := heap ! cp]) cp = (leaf, heap')"
      using 1(3) True by (subst (asm) siftup_loop.simps) (auto simp: Let_def cp_def split: if_splits)
    let ?h = "heap[pos := heap ! cp]"
    have "hole_inv ?h cp"
      unfolding hole_inv_def
    proof (intro conjI allI impI)
      show "cp < length ?h" using cp by simp
    next
      fix i assume i: "0 < i \<and> i < length ?h \<and> i \<noteq> cp \<and> parent i \<noteq> cp"
      then have il: "i < length heap" and pi: "parent i < i" using parent_less[of i] by simp_all
      show "?h ! parent i \<le> ?h ! i"
      proof (cases "i = pos")
        case True
        with grand[of cp] cp i pi len show ?thesis by simp
      next
        case False
        show ?thesis
        proof (cases "parent i = pos")
          case True
          with smaller[of i] i il False len show ?thesis by simp
        next
          case np: False
          with ord[of i] i il False show ?thesis by simp
        qed
      qed
    next
      fix c assume c: "0 < cp \<and> 0 < c \<and> c < length ?h \<and> parent c = cp"
      then have "cp < c" using parent_less[of c] by auto
      with c cp ord[of c] len show "?h ! parent cp \<le> ?h ! c" by simp
    qed
    from 1(1)[OF refl refl True refl cp_def this rec] show ?thesis .
  qed
qed

lemma heap_inv_siftdown:
  "sift_inv heap pos \<Longrightarrow> heap_inv (siftdown heap 0 pos)"
  unfolding siftdown_def by (rule siftdown_loop_heap_inv) simp

lemma heap_inv_siftup:
  assumes "hole_inv heap 0"
  shows "heap_inv (siftup heap 0)"
proof -
  obtain leaf heap' where s: "siftup_loop heap 0 = (leaf, heap')"
    by (cases "siftup_loop heap 0")
  from siftup_loop_hole_inv[OF assms s] show ?thesis
    by (simp add: siftup_def s heap_inv_siftdown)
qed

lemma heap_inv_Nil: "heap_inv []"
  by (simp add: heap_inv_def)

lemma heap_inv_heappush:
  assumes "heap_inv heap"
  shows "heap_inv (heappush heap item)"
proof -
  have "sift_inv (heap @ [item]) (length heap)"
    unfolding sift_inv_def
  proof (intro conjI allI impI)
    show "length heap < length (heap @ [item])" by simp
  next
    fix i assume i: "0 < i \<and> i < length (heap @ [item]) \<and> i \<noteq> length heap"
    then have "i < length heap" "parent i < length heap" using parent_less[of i] by simp_all
    with assms i show "(heap @ [item]) ! parent i \<le> (heap @ [item]) ! i"
      by (simp add: heap_inv_def nth_append)
  next
    fix c assume "0 < length heap \<and> 0 < c \<and> c < length (heap @ [item]) \<and> parent c = length heap"
    with parent_less[of c] show "(heap @ [item]) ! parent (length heap) \<le> (heap @ [item]) ! c"
      by simp
  qed
  then show ?thesis unfolding heappush_def by (rule heap_inv_siftdown)
qed

lemma heappop_cases:
  assumes "heappop heap = Inr (item, rest)"
  shows "heap \<noteq> [] \<and> item = heap ! 0 \<and>
         (if butlast heap = [] then rest = []
          else rest = siftup ((butlast heap)[0 := last heap]) 0)"
proof -
  from assms have ne: "heap \<noteq> []" by (auto simp: heappop_def)
  show ?thesis
  proof (cases "butlast heap = []")
    case True
    with assms ne have "item = last heap" "rest = []" by (auto simp: heappop_def Let_def)
    moreover from True ne have "last heap = heap ! 0"
      by (cases heap) (auto split: if_splits)
    ultimately show ?thesis using ne True by simp
  next
    case False
    have "heappop heap = Inr (butlast heap ! 0, siftup ((butlast heap)[0 := last heap]) 0)"
      unfolding heappop_def Let_def using ne False by (simp only: if_False if_True not_False_eq_True)
    moreover have "butlast heap ! 0 = heap ! 0"
      using False by (cases heap) (auto split: if_splits)
    ultimately show ?thesis using assms ne False by simp
  qed
qed

lemma heap_inv_heappop:
  assumes "heap_inv heap" "heappop heap = Inr (item, rest)"
  shows "heap_inv rest" and "\<forall>e \<in> set heap. item \<le> e"
proof -
  from heappop_cases[OF assms(2)] have ne: "heap \<noteq> []" and item: "item = heap ! 0"
    and rest: "if butlast heap = [] then rest = []
               else rest = siftup ((butlast heap)[0 := last heap]) 0"
    by simp_all
  show "\<forall>e \<in> set heap. item \<le> e"
    using heap_inv_least[OF assms(1)] by (auto simp: in_set_conv_nth item)
  show "heap_inv rest"
  proof (cases "butlast heap = []")
    case True
    with rest show ?thesis by (simp add: heap_inv_Nil)
  next
    case False
    let ?h = "(butlast heap)[0 := last heap]"
    have "hole_inv ?h 0"
      unfolding hole_inv_def
    proof (intro conjI allI impI)
      show "0 < length ?h" using False by (cases "butlast heap") simp_all
    next
      fix i assume i: "0 < i \<and> i < length ?h \<and> i \<noteq> 0 \<and> parent i \<noteq> 0"
      then have il: "i < length (butlast heap)" and pi: "parent i < i"
        using parent_less[of i] by simp_all
      from il have il': "i < length heap" by simp
      have "?h ! i = heap ! i" "?h ! parent i = heap ! parent i"
        using i il pi by (simp_all add: nth_butlast)
      moreover have "heap ! parent i \<le> heap ! i"
        using assms(1) i il' by (simp add: heap_inv_def)
      ultimately show "?h ! parent i \<le> ?h ! i" by simp
    next
      fix c assume "0 < (0::nat) \<and> 0 < c \<and> c < length ?h \<and> parent c = 0"
      then show "?h ! parent 0 \<le> ?h ! c" by simp
    qed
    then have "heap_inv (siftup ?h 0)" by (rule heap_inv_siftup)
    with rest False show ?thesis by simp
  qed
qed

subsection \<open>The invariants hold\<close>

lemma set_heappush: "set (heappush heap item) = insert item (set heap)"
  using mset_heappush[of heap item] by (metis set_mset_add_mset_insert set_mset_mset)

lemma set_heappop: "heappop heap = Inr (item, rest) \<Longrightarrow> set heap = insert item (set rest)"
  using mset_heappop[of heap item rest] by (metis set_mset_add_mset_insert set_mset_mset)

lemma heappop_nonempty: "heap \<noteq> [] \<Longrightarrow> \<exists>item rest. heappop heap = Inr (item, rest)"
  by (simp add: heappop_def Let_def)

lemma chain_inv_init: "chain_inv body start (astar_init start end')"
  by (simp add: chain_inv_def chain_ok_def astar_init_def)

lemma frontier_inv_init: "frontier_inv end' (astar_init start end')"
  by (auto simp: frontier_inv_def astar_init_def set_heappush split: if_splits)

lemma chain_ok_push:
  assumes inv: "chain_ok body start cf cs"
    and d: "d \<in> set directions"
    and ns: "\<not> skipped body n"
    and n: "n = successor cur d"
    and c: "cs cur = Some c"
    and better: "case cs n of None \<Rightarrow> True | Some old \<Rightarrow> c + 1 < old"
  shows "chain_ok body start (cf(n \<mapsto> Some cur)) (cs(n \<mapsto> c + 1))"
proof -
  from inv have s0: "cf start = Some None" "cs start = Some 0"
    and dom: "\<And>x. cs x \<noteq> None \<Longrightarrow> cf x \<noteq> None"
    and sN: "\<And>x. cf x = Some None \<Longrightarrow> x = start"
    and link: "\<And>x p. cf x = Some (Some p) \<Longrightarrow>
        x \<noteq> start \<and> \<not> skipped body x \<and> (\<exists>d \<in> set directions. x = successor p d) \<and>
        (\<exists>k j. cs x = Some k \<and> cs p = Some j \<and> j < k)"
    unfolding chain_ok_def by blast+
  have n_start: "n \<noteq> start"
  proof
    assume "n = start"
    with better s0(2) show False by simp
  qed
  have n_cur: "n \<noteq> cur"
  proof
    assume "n = cur"
    with better c show False by simp
  qed
  have a1: "(cf(n \<mapsto> Some cur)) start = Some None" using n_start s0(1) by simp
  have a2: "(cs(n \<mapsto> c + 1)) start = Some 0" using n_start s0(2) by simp
  have a3: "\<forall>x. (cf(n \<mapsto> Some cur)) x = Some None \<longrightarrow> x = start"
  proof (intro allI impI)
    fix x assume "(cf(n \<mapsto> Some cur)) x = Some None"
    then have "cf x = Some None" by (cases "x = n") simp_all
    then show "x = start" by (rule sN)
  qed
  have a4: "\<forall>x p. (cf(n \<mapsto> Some cur)) x = Some (Some p) \<longrightarrow>
        x \<noteq> start \<and> \<not> skipped body x \<and> (\<exists>d \<in> set directions. x = successor p d) \<and>
        (\<exists>k j. (cs(n \<mapsto> c + 1)) x = Some k \<and> (cs(n \<mapsto> c + 1)) p = Some j \<and> j < k)"
  proof (intro allI impI)
    fix x p assume a: "(cf(n \<mapsto> Some cur)) x = Some (Some p)"
    show "x \<noteq> start \<and> \<not> skipped body x \<and> (\<exists>d \<in> set directions. x = successor p d) \<and>
        (\<exists>k j. (cs(n \<mapsto> c + 1)) x = Some k \<and> (cs(n \<mapsto> c + 1)) p = Some j \<and> j < k)"
    proof (cases "x = n")
      case True
      with a have p: "p = cur" by simp
      have "(cs(n \<mapsto> c + 1)) x = Some (c + 1)" using True by simp
      moreover have "(cs(n \<mapsto> c + 1)) p = Some c" using p n_cur c by simp
      moreover have "\<exists>d \<in> set directions. x = successor p d" using True p n d by blast
      ultimately show ?thesis using True n_start ns by simp
    next
      case False
      with a have old: "cf x = Some (Some p)" by simp
      from link[OF old] obtain k j where kj: "cs x = Some k" "cs p = Some j" "j < k"
        and rest: "x \<noteq> start" "\<not> skipped body x" "\<exists>d \<in> set directions. x = successor p d"
        by blast
      have x: "(cs(n \<mapsto> c + 1)) x = Some k" using False kj(1) by simp
      have "\<exists>j'. (cs(n \<mapsto> c + 1)) p = Some j' \<and> j' < k"
      proof (cases "p = n")
        case True
        with kj(2) better have "c + 1 < j" by simp
        with kj(3) True show ?thesis by simp
      next
        case np: False
        with kj show ?thesis by simp
      qed
      with x rest show ?thesis by blast
    qed
  qed
  have a5: "\<forall>x. (cs(n \<mapsto> c + 1)) x \<noteq> None \<longrightarrow> (cf(n \<mapsto> Some cur)) x \<noteq> None"
  proof (intro allI impI)
    fix x assume a: "(cs(n \<mapsto> c + 1)) x \<noteq> None"
    show "(cf(n \<mapsto> Some cur)) x \<noteq> None"
    proof (cases "x = n")
      case True
      then show ?thesis by simp
    next
      case False
      with a have "cs x \<noteq> None" by simp
      then have "cf x \<noteq> None" by (rule dom)
      with False show ?thesis by simp
    qed
  qed
  from a1 a2 a3 a4 a5 show ?thesis unfolding chain_ok_def by blast
qed

lemma astar_neighbor_skip:
  "skipped body (successor cur d) \<Longrightarrow> astar_neighbor body end' cur st d = Inr st"
  by (simp add: astar_neighbor_def Let_def)

lemma astar_neighbor_keep:
  assumes "\<not> skipped body (successor cur d)" "cost_so_far st cur = Some c"
    "\<not> (case cost_so_far st (successor cur d) of None \<Rightarrow> True | Some old \<Rightarrow> c + 1 < old)"
  shows "astar_neighbor body end' cur st d = Inr st"
  using assms unfolding astar_neighbor_def Let_def by (simp only: if_False option.case)

lemma astar_neighbor_push:
  assumes "\<not> skipped body (successor cur d)" "cost_so_far st cur = Some c"
    "case cost_so_far st (successor cur d) of None \<Rightarrow> True | Some old \<Rightarrow> c + 1 < old"
  shows "astar_neighbor body end' cur st d =
     Inr (st\<lparr>cost_so_far := (cost_so_far st)(successor cur d \<mapsto> c + 1),
             open_list := heappush (open_list st)
                (int (c + 1) + heuristic (successor cur d) end', successor cur d),
             came_from := (came_from st)(successor cur d \<mapsto> Some cur)\<rparr>)"
  using assms unfolding astar_neighbor_def Let_def by (simp only: if_False if_True option.case)

lemma astar_neighbor_inv:
  assumes inv: "chain_inv body start st"
    and fr: "frontier_inv end' st"
    and d: "d \<in> set directions"
    and cur: "cost_so_far st cur \<noteq> None"
  shows "\<exists>st'. astar_neighbor body end' cur st d = Inr st' \<and>
           chain_inv body start st' \<and> frontier_inv end' st' \<and> cost_so_far st' cur \<noteq> None \<and>
           current st' = current st"
proof -
  let ?n = "successor cur d"
  from cur obtain c where c: "cost_so_far st cur = Some c" by blast
  let ?better = "case cost_so_far st ?n of None \<Rightarrow> True | Some old \<Rightarrow> c + 1 < old"
  show ?thesis
  proof (cases "skipped body ?n")
    case True
    from astar_neighbor_skip[OF True] inv fr cur show ?thesis by simp
  next
    case ns: False
    show ?thesis
    proof (cases ?better)
      case False
      from astar_neighbor_keep[OF ns c False] inv fr cur show ?thesis by simp
    next
      case True
      let ?st' = "st\<lparr>cost_so_far := (cost_so_far st)(?n \<mapsto> c + 1),
                open_list := heappush (open_list st) (int (c + 1) + heuristic ?n end', ?n),
                came_from := (came_from st)(?n \<mapsto> Some cur)\<rparr>"
      have res: "astar_neighbor body end' cur st d = Inr ?st'"
        by (rule astar_neighbor_push[OF ns c True])
      have "chain_ok body start ((came_from st)(?n \<mapsto> Some cur)) ((cost_so_far st)(?n \<mapsto> c + 1))"
        using inv d ns refl c True unfolding chain_inv_def by (rule chain_ok_push)
      then have ch: "chain_inv body start ?st'" by (simp add: chain_inv_def)
      from fr have f1: "\<forall>e \<in> set (open_list st). cost_so_far st (snd e) \<noteq> None"
        and f2: "came_from st end' \<noteq> None \<longrightarrow> end' \<in> snd ` set (open_list st)"
        unfolding frontier_inv_def by blast+
      have g1: "\<forall>e \<in> set (open_list ?st'). cost_so_far ?st' (snd e) \<noteq> None"
        using f1 by (simp add: set_heappush)
      have g2: "came_from ?st' end' \<noteq> None \<longrightarrow> end' \<in> snd ` set (open_list ?st')"
      proof
        assume a: "came_from ?st' end' \<noteq> None"
        show "end' \<in> snd ` set (open_list ?st')"
        proof (cases "end' = ?n")
          case True
          then show ?thesis by (simp add: set_heappush)
        next
          case False
          with a have "came_from st end' \<noteq> None" by simp
          with f2 show ?thesis by (simp add: set_heappush)
        qed
      qed
      from g1 g2 have fr': "frontier_inv end' ?st'" unfolding frontier_inv_def by blast
      have "cost_so_far ?st' cur \<noteq> None" using c by simp
      with res ch fr' show ?thesis by simp
    qed
  qed
qed

lemma astar_neighbors_inv:
  assumes "chain_inv body start st" "frontier_inv end' st" "set ds \<subseteq> set directions"
    "cost_so_far st cur \<noteq> None"
  shows "\<exists>st'. astar_neighbors body end' cur ds st = Inr st' \<and>
           chain_inv body start st' \<and> frontier_inv end' st' \<and> current st' = current st"
  using assms
proof (induction ds arbitrary: st)
  case Nil
  then show ?case by simp
next
  case (Cons d ds)
  from Cons.prems have d: "d \<in> set directions" and ds: "set ds \<subseteq> set directions" by auto
  from astar_neighbor_inv[OF Cons.prems(1,2) d Cons.prems(4)] obtain st1 where
    s1: "astar_neighbor body end' cur st d = Inr st1" and
    i1: "chain_inv body start st1" "frontier_inv end' st1" "cost_so_far st1 cur \<noteq> None"
      "current st1 = current st"
    by blast
  from Cons.IH[OF i1(1,2) ds i1(3)] s1 i1(4) show ?case by simp
qed

lemma astar_pop_inv:
  assumes inv: "chain_inv body start st"
    and fr: "frontier_inv end' st"
    and ne: "open_list st \<noteq> []"
  shows "\<exists>cur st1. astar_pop st = Inr (cur, st1) \<and> chain_inv body start st1 \<and>
           current st1 = Some cur \<and> cost_so_far st1 cur \<noteq> None \<and>
           (cur \<noteq> end' \<longrightarrow> frontier_inv end' st1)"
proof -
  from heappop_nonempty[OF ne] obtain item rest where h: "heappop (open_list st) = Inr (item, rest)"
    by blast
  let ?st1 = "st\<lparr>open_list := rest, current := Some (snd item)\<rparr>"
  have pop: "astar_pop st = Inr (snd item, ?st1)" by (simp add: astar_pop_def h)
  from set_heappop[OF h] have set: "set (open_list st) = insert item (set rest)" .
  from fr have f1: "\<forall>e \<in> set (open_list st). cost_so_far st (snd e) \<noteq> None"
    and f2: "came_from st end' \<noteq> None \<longrightarrow> end' \<in> snd ` set (open_list st)"
    unfolding frontier_inv_def by blast+
  have "chain_inv body start ?st1" using inv by (simp add: chain_inv_def)
  moreover have "cost_so_far ?st1 (snd item) \<noteq> None" using f1 set by simp
  moreover have "snd item \<noteq> end' \<longrightarrow> frontier_inv end' ?st1"
  proof
    assume ne: "snd item \<noteq> end'"
    have "\<forall>e \<in> set rest. cost_so_far st (snd e) \<noteq> None" using f1 set by simp
    moreover have "came_from st end' \<noteq> None \<longrightarrow> end' \<in> snd ` set rest"
    proof
      assume "came_from st end' \<noteq> None"
      with f2 have "end' \<in> snd ` insert item (set rest)" using set by simp
      with ne show "end' \<in> snd ` set rest" by auto
    qed
    ultimately show "frontier_inv end' ?st1" by (simp add: frontier_inv_def)
  qed
  ultimately show ?thesis using pop by simp
qed

lemma astar_loop_inv:
  assumes "chain_inv body start st" "frontier_inv end' st"
  shows "\<exists>st'. astar_loop body end' st = Inr st' \<and> chain_inv body start st' \<and>
           (came_from st' end' \<noteq> None \<longrightarrow> current st' = Some end')"
  using assms
proof (induction body end' st rule: astar_loop.induct)
  case (1 body end' st)
  show ?case
  proof (cases "open_list st = []")
    case True
    then have "astar_loop body end' st = Inr st" by (subst astar_loop.simps) simp
    moreover from True "1.prems"(2) have "came_from st end' = None"
      by (simp add: frontier_inv_def)
    ultimately show ?thesis using "1.prems"(1) by simp
  next
    case False
    from astar_pop_inv[OF "1.prems" False] obtain cur st1 where
      pop: "astar_pop st = Inr (cur, st1)" and c1: "chain_inv body start st1"
      and cur: "current st1 = Some cur" and cost: "cost_so_far st1 cur \<noteq> None"
      and f1: "cur \<noteq> end' \<longrightarrow> frontier_inv end' st1"
      by blast
    show ?thesis
    proof (cases "cur = end'")
      case True
      then have "astar_loop body end' st = Inr st1"
        using False pop by (subst astar_loop.simps) simp
      with c1 cur True show ?thesis by simp
    next
      case ne: False
      with f1 have f1': "frontier_inv end' st1" by simp
      from astar_neighbors_inv[OF c1 f1' subset_refl cost] obtain st2 where
        nb: "astar_neighbors body end' cur directions st1 = Inr st2"
        and i2: "chain_inv body start st2" "frontier_inv end' st2"
        by blast
      have "astar_loop body end' st = astar_loop body end' st2"
        using False pop ne nb by (subst astar_loop.simps) simp
      with "1.IH"[OF False pop refl ne nb i2] show ?thesis by simp
    qed
  qed
qed

subsection \<open>The walk back along \<open>came_from\<close>\<close>

text \<open>
  On such a tree the walk of lines 122 to 127 ends: each step moves to a cell of
  smaller cost. It produces the chain from \<open>cur\<close> back to \<open>start\<close>, reversed.
\<close>

lemma reconstruct_chain:
  assumes ok: "chain_ok body start cf cs"
  shows "cs cur = Some k \<Longrightarrow>
         \<exists>ch. reconstruct cf start cur acc = Some (Inr (rev (acc @ cur # ch))) \<and>
              (ch = [] \<longleftrightarrow> cur = start) \<and>
              last (cur # ch) = start \<and>
              (\<forall>x \<in> set (butlast (cur # ch)). x \<noteq> start \<and> \<not> skipped body x) \<and>
              (\<forall>i. Suc i < length (cur # ch) \<longrightarrow>
                   (\<exists>d \<in> set directions. (cur # ch) ! i = successor ((cur # ch) ! Suc i) d))"
proof (induction k arbitrary: cur acc rule: less_induct)
  case (less k)
  from ok have sN: "\<And>x. cf x = Some None \<Longrightarrow> x = start"
    and dom: "\<And>x. cs x \<noteq> None \<Longrightarrow> cf x \<noteq> None"
    and link: "\<And>x p. cf x = Some (Some p) \<Longrightarrow>
        x \<noteq> start \<and> \<not> skipped body x \<and> (\<exists>d \<in> set directions. x = successor p d) \<and>
        (\<exists>k j. cs x = Some k \<and> cs p = Some j \<and> j < k)"
    unfolding chain_ok_def by blast+
  show ?case
  proof (cases "cur = start")
    case True
    then have "reconstruct cf start cur acc = Some (Inr (rev (acc @ [cur])))"
      by (subst reconstruct.simps) simp
    with True show ?thesis by simp
  next
    case False
    have "cf cur \<noteq> None" using dom less.prems by simp
    then obtain v where v: "cf cur = Some v" by blast
    with sN False obtain p where p: "cf cur = Some (Some p)" by (cases v) auto
    from link[OF p] less.prems obtain j where j: "cs p = Some j" "j < k"
      and ns: "\<not> skipped body cur" and step: "\<exists>d \<in> set directions. cur = successor p d"
      by auto
    from less.IH[OF j(2) j(1), of "acc @ [cur]"] obtain ch where
      r: "reconstruct cf start p (acc @ [cur]) = Some (Inr (rev ((acc @ [cur]) @ p # ch)))"
      and e: "ch = [] \<longleftrightarrow> p = start"
      and l: "last (p # ch) = start"
      and b: "\<forall>x \<in> set (butlast (p # ch)). x \<noteq> start \<and> \<not> skipped body x"
      and a: "\<forall>i. Suc i < length (p # ch) \<longrightarrow>
                   (\<exists>d \<in> set directions. (p # ch) ! i = successor ((p # ch) ! Suc i) d)"
      by blast
    have r': "reconstruct cf start cur acc = Some (Inr (rev (acc @ cur # p # ch)))"
      using False p r by (subst reconstruct.simps) simp
    have adj: "\<forall>i. Suc i < length (cur # p # ch) \<longrightarrow>
        (\<exists>d \<in> set directions. (cur # p # ch) ! i = successor ((cur # p # ch) ! Suc i) d)"
    proof (intro allI impI)
      fix i assume i: "Suc i < length (cur # p # ch)"
      show "\<exists>d \<in> set directions. (cur # p # ch) ! i = successor ((cur # p # ch) ! Suc i) d"
      proof (cases i)
        case 0
        with step show ?thesis by simp
      next
        case (Suc i')
        with i a show ?thesis by simp
      qed
    qed
    have "\<forall>x \<in> set (butlast (cur # p # ch)). x \<noteq> start \<and> \<not> skipped body x"
      using b False ns by simp
    with r' l adj show ?thesis by (intro exI[of _ "p # ch"]) simp
  qed
qed

subsection \<open>What \<^verbatim>\<open>astar\<close> returns\<close>

lemma stepwise_snoc:
  "stepwise (xs @ [a]) \<Longrightarrow> b \<in> set (map (successor a) directions) \<Longrightarrow> stepwise (xs @ [a, b])"
  by (induction xs rule: stepwise.induct) auto

lemma stepwise_rev_chain:
  "(\<forall>i. Suc i < length xs \<longrightarrow> (\<exists>d \<in> set directions. xs ! i = successor (xs ! Suc i) d)) \<Longrightarrow>
   stepwise (rev xs)"
proof (induction xs)
  case Nil
  then show ?case by simp
next
  case (Cons x xs)
  have tl: "\<forall>i. Suc i < length xs \<longrightarrow> (\<exists>d \<in> set directions. xs ! i = successor (xs ! Suc i) d)"
  proof (intro allI impI)
    fix i assume "Suc i < length xs"
    with Cons.prems[rule_format, of "Suc i"] show "\<exists>d \<in> set directions. xs ! i = successor (xs ! Suc i) d"
      by simp
  qed
  show ?case
  proof (cases xs)
    case Nil
    then show ?thesis by simp
  next
    case (Cons y ys)
    from Cons.prems[rule_format, of 0] Cons have "x \<in> set (map (successor y) directions)" by auto
    moreover have "stepwise (rev ys @ [y])" using Cons.IH[OF tl] Cons by simp
    ultimately have "stepwise (rev ys @ [y, x])" by (rule stepwise_snoc[rotated])
    then show ?thesis using Cons by simp
  qed
qed

lemma astar_cases:
  "astar body start end' = Some (Inr None) \<or>
   (\<exists>path. astar body start end' = Some (Inr (Some path)) \<and>
      path \<noteq> [] \<and> hd path = start \<and> last path = end' \<and>
      (\<forall>x \<in> set (tl path). x \<noteq> start \<and> \<not> skipped body x) \<and>
      stepwise path)"
proof -
  from astar_loop_inv[OF chain_inv_init[of body start end'] frontier_inv_init[of end' start]]
  obtain st where
    loop: "astar_loop body end' (astar_init start end') = Inr st"
    and ok: "chain_ok body start (came_from st) (cost_so_far st)"
    and cur: "came_from st end' \<noteq> None \<longrightarrow> current st = Some end'"
    unfolding chain_inv_def by blast
  show ?thesis
  proof (cases "came_from st end' = None")
    case True
    with loop show ?thesis by (simp add: astar_def)
  next
    case False
    with cur have c: "current st = Some end'" by simp
    from False obtain v where v: "came_from st end' = Some v" by blast
    have "\<exists>k. cost_so_far st end' = Some k"
    proof (cases v)
      case None
      with v ok have "end' = start" unfolding chain_ok_def by blast
      with ok show ?thesis unfolding chain_ok_def by blast
    next
      case (Some p)
      with v ok show ?thesis unfolding chain_ok_def by blast
    qed
    then obtain k where k: "cost_so_far st end' = Some k" by blast
    from reconstruct_chain[OF ok k, of "[]"] obtain ch where
      r: "reconstruct (came_from st) start end' [] = Some (Inr (rev (end' # ch)))"
      and l: "last (end' # ch) = start"
      and b: "\<forall>x \<in> set (butlast (end' # ch)). x \<noteq> start \<and> \<not> skipped body x"
      and a: "\<forall>i. Suc i < length (end' # ch) \<longrightarrow>
                   (\<exists>d \<in> set directions. (end' # ch) ! i = successor ((end' # ch) ! Suc i) d)"
      by auto
    let ?path = "rev (end' # ch)"
    have res: "astar body start end' = Some (Inr (Some ?path))"
      using loop False c r by (simp add: astar_def)
    have "hd ?path = last (end' # ch)" by (rule hd_rev)
    with l have "hd ?path = start" by simp
    moreover have "last ?path = end'" by simp
    moreover have "tl ?path = rev (butlast (end' # ch))"
      by (metis butlast_rev rev_rev_ident)
    then have "\<forall>x \<in> set (tl ?path). x \<noteq> start \<and> \<not> skipped body x" using b by simp
    moreover have "stepwise ?path" using a by (rule stepwise_rev_chain)
    ultimately show ?thesis using res by blast
  qed
qed

lemma astar_returns: "\<exists>r. astar body start end' = Some (Inr r)"
  using astar_cases[of body start end'] by blast

lemma astar_path:
  assumes "astar body start end' = Some (Inr (Some path))"
  shows "path \<noteq> [] \<and> hd path = start \<and> last path = end' \<and>
      (\<forall>x \<in> set (tl path). x \<noteq> start \<and> \<not> skipped body x) \<and> stepwise path"
  using astar_cases[of body start end'] assms by auto

subsection \<open>The frontier during a run\<close>

lemma prio_inv_init: "prio_inv end' (astar_init start end')"
  using heap_inv_heappush[OF heap_inv_Nil, of "(heuristic start end', start)"]
  by (simp add: prio_inv_def astar_init_def set_heappush)

lemma prio_inv_neighbor:
  assumes p: "prio_inv end' st" and a: "astar_neighbor body end' cur st d = Inr st'"
  shows "prio_inv end' st'"
proof -
  let ?n = "successor cur d"
  from p have h: "heap_inv (open_list st)"
    and e: "\<And>e. e \<in> set (open_list st) \<Longrightarrow> \<exists>g g'. fst e = int g + heuristic (snd e) end' \<and>
         cost_so_far st (snd e) = Some g' \<and> g' \<le> g"
    unfolding prio_inv_def by blast+
  from astar_neighbor_cases[OF a] show ?thesis
  proof
    assume "st' = st"
    with p show ?thesis by simp
  next
    assume "\<exists>c. \<not> skipped body ?n \<and> cost_so_far st cur = Some c \<and>
       (case cost_so_far st ?n of None \<Rightarrow> True | Some old \<Rightarrow> c + 1 < old) \<and>
       st' = st\<lparr>cost_so_far := (cost_so_far st)(?n \<mapsto> c + 1),
                open_list := heappush (open_list st) (int (c + 1) + heuristic ?n end', ?n),
                came_from := (came_from st)(?n \<mapsto> Some cur)\<rparr>"
    then obtain c where
      better: "case cost_so_far st ?n of None \<Rightarrow> True | Some old \<Rightarrow> c + 1 < old"
      and cs: "cost_so_far st' = (cost_so_far st)(?n \<mapsto> c + 1)"
      and ol: "open_list st' = heappush (open_list st) (int (c + 1) + heuristic ?n end', ?n)"
      by auto
    have "heap_inv (open_list st')" unfolding ol using h by (rule heap_inv_heappush)
    moreover have "\<forall>x \<in> set (open_list st'). \<exists>g g'. fst x = int g + heuristic (snd x) end' \<and>
         cost_so_far st' (snd x) = Some g' \<and> g' \<le> g"
    proof
      fix x assume "x \<in> set (open_list st')"
      then consider "x = (int (c + 1) + heuristic ?n end', ?n)" | "x \<in> set (open_list st)"
        unfolding ol set_heappush by blast
      then show "\<exists>g g'. fst x = int g + heuristic (snd x) end' \<and>
         cost_so_far st' (snd x) = Some g' \<and> g' \<le> g"
      proof cases
        case 1
        then have "fst x = int (c + 1) + heuristic (snd x) end'"
          "cost_so_far st' (snd x) = Some (c + 1)" using cs by simp_all
        then show ?thesis by blast
      next
        case 2
        from e[OF 2] obtain g g' where g: "fst x = int g + heuristic (snd x) end'"
          "cost_so_far st (snd x) = Some g'" "g' \<le> g" by blast
        show ?thesis
        proof (cases "snd x = ?n")
          case True
          with g(2) better have "c + 1 < g'" by simp
          with g(3) have "c + 1 \<le> g" by simp
          moreover have "cost_so_far st' (snd x) = Some (c + 1)" using True cs by simp
          ultimately show ?thesis using g(1) by blast
        next
          case False
          then have "cost_so_far st' (snd x) = Some g'" using cs g(2) by simp
          with g show ?thesis by blast
        qed
      qed
    qed
    ultimately show ?thesis unfolding prio_inv_def by blast
  qed
qed

lemma prio_inv_neighbors:
  "prio_inv end' st \<Longrightarrow> astar_neighbors body end' cur ds st = Inr st' \<Longrightarrow> prio_inv end' st'"
proof (induction ds arbitrary: st)
  case Nil
  then show ?case by simp
next
  case (Cons d ds)
  then obtain st1 where s1: "astar_neighbor body end' cur st d = Inr st1"
    and s2: "astar_neighbors body end' cur ds st1 = Inr st'"
    by (auto split: sum.splits)
  from Cons.IH[OF prio_inv_neighbor[OF Cons.prems(1) s1] s2] show ?case .
qed

lemma prio_inv_pop:
  assumes p: "prio_inv end' st" and a: "astar_pop st = Inr (cur, st1)"
  shows "prio_inv end' st1"
proof -
  from astar_pop_Inr[OF a] obtain item rest
    where h: "heappop (open_list st) = Inr (item, rest)"
      and st1: "st1 = st\<lparr>open_list := rest, current := Some cur\<rparr>"
    by blast
  from p have hi: "heap_inv (open_list st)" unfolding prio_inv_def by blast
  from heap_inv_heappop(1)[OF hi h] have "heap_inv rest" .
  moreover from set_heappop[OF h] have "set rest \<subseteq> set (open_list st)" by blast
  ultimately show ?thesis using p st1 unfolding prio_inv_def by auto
qed

lemma loop_state_prio_inv: "loop_state body start end' st \<Longrightarrow> prio_inv end' st"
proof (induction rule: loop_state.induct)
  case loop_init
  show ?case by (rule prio_inv_init)
next
  case (loop_step st cur st1 st2)
  from prio_inv_neighbors[OF prio_inv_pop[OF loop_step.IH loop_step.hyps(2)] loop_step.hyps(4)]
  show ?case .
qed

text \<open>
  The logged states are the states of the loop, and every entry of the frontier
  comes from an assignment of the log, each from one of its own.
\<close>

lemma run_log_loop_state: "run_log body start end' st L \<Longrightarrow> loop_state body start end' st"
  by (induction rule: run_log.induct) (auto intro: loop_state.intros)

lemma loop_state_run_log: "loop_state body start end' st \<Longrightarrow> \<exists>L. run_log body start end' st L"
  by (induction rule: loop_state.induct) (auto intro: run_log.intros)

lemma log_neighbors:
  assumes "mset (open_list st) \<subseteq># image_mset (\<lambda>(c, g). (int g + heuristic c end', c)) L"
    and "astar_neighbors body end' cur ds st = Inr st'"
  shows "mset (open_list st') \<subseteq># image_mset (\<lambda>(c, g). (int g + heuristic c end', c)) (L + mset (assignments body end' cur ds st))"
  using assms
proof (induction ds arbitrary: st L)
  case Nil
  then show ?case by simp
next
  case (Cons d ds)
  let ?n = "successor cur d"
  from Cons.prems(2) obtain s1 where s1: "astar_neighbor body end' cur st d = Inr s1"
    and s2: "astar_neighbors body end' cur ds s1 = Inr st'"
    by (auto split: sum.splits)
  let ?new = "case cost_so_far s1 ?n of None \<Rightarrow> []
     | Some g \<Rightarrow> if cost_so_far st ?n = Some g then [] else [(?n, g)]"
  have a: "assignments body end' cur (d # ds) st = ?new @ assignments body end' cur ds s1"
    using s1 by simp
  have "mset (open_list s1) \<subseteq># image_mset (\<lambda>(c, g). (int g + heuristic c end', c)) (L + mset ?new)"
    using astar_neighbor_cases[OF s1]
  proof
    assume "s1 = st"
    then have "?new = []" by (simp split: option.splits)
    with Cons.prems(1) \<open>s1 = st\<close> show ?thesis by simp
  next
    assume "\<exists>c. \<not> skipped body ?n \<and> cost_so_far st cur = Some c \<and>
       (case cost_so_far st ?n of None \<Rightarrow> True | Some old \<Rightarrow> c + 1 < old) \<and>
       s1 = st\<lparr>cost_so_far := (cost_so_far st)(?n \<mapsto> c + 1),
                open_list := heappush (open_list st) (int (c + 1) + heuristic ?n end', ?n),
                came_from := (came_from st)(?n \<mapsto> Some cur)\<rparr>"
    then obtain c where
      better: "case cost_so_far st ?n of None \<Rightarrow> True | Some old \<Rightarrow> c + 1 < old"
      and cs: "cost_so_far s1 = (cost_so_far st)(?n \<mapsto> c + 1)"
      and ol: "open_list s1 = heappush (open_list st) (int (c + 1) + heuristic ?n end', ?n)"
      by auto
    from better have "cost_so_far st ?n \<noteq> Some (c + 1)" by (auto split: option.splits)
    with cs have new: "?new = [(?n, c + 1)]" by simp
    have "mset (open_list s1) = add_mset (int (c + 1) + heuristic ?n end', ?n) (mset (open_list st))"
      unfolding ol by (simp add: mset_heappush)
    with Cons.prems(1) show ?thesis unfolding new by (simp add: mset_subset_eq_add_mset_cancel)
  qed
  from Cons.IH[OF this s2] show ?case unfolding a by (simp add: ac_simps)
qed

lemma run_log_frontier:
  "run_log body start end' st L \<Longrightarrow> mset (open_list st) \<subseteq># image_mset (\<lambda>(c, g). (int g + heuristic c end', c)) L"
proof (induction rule: run_log.induct)
  case log_init
  show ?case by (simp add: astar_init_def mset_heappush)
next
  case (log_step st L cur st1 st2)
  from astar_pop_Inr[OF log_step.hyps(2)] obtain item rest
    where h: "heappop (open_list st) = Inr (item, rest)"
      and st1: "st1 = st\<lparr>open_list := rest, current := Some cur\<rparr>"
    by blast
  from mset_heappop[OF h] have "mset (open_list st1) \<subseteq># mset (open_list st)"
    using st1 by simp
  from this log_step.IH have "mset (open_list st1) \<subseteq># image_mset (\<lambda>(c, g). (int g + heuristic c end', c)) L"
    by (rule subset_mset.order_trans)
  from log_neighbors[OF this log_step.hyps(4)] show ?case .
qed

subsection \<open>Results that are not exceptions\<close>

text \<open>Reading the components of a result that is known not to be an exception.\<close>

lemma Inr_fst_projr: "map_sum id fst x = Inr c \<Longrightarrow> x = Inr (c, snd (projr x))"
  by (cases x) auto

lemma Inr_projr: "\<not> isl x \<Longrightarrow> x = Inr (projr x)"
  by (cases x) auto

subsection \<open>Food and moves\<close>

lemma generate_food_unfold:
  "generate_food s =
     (if food_draw (rng s) \<notin> set (position s)
      then Some (s\<lparr>rng := stl (stl (rng s)), food := Some (food_draw (rng s))\<rparr>)
      else generate_food (s\<lparr>rng := stl (stl (rng s))\<rparr>))"
  by (subst generate_food.simps) (simp add: Let_def food_draw_def)

lemma food_draw_in_grid: "\<not> skipped [] (food_draw r)"
  by (simp add: skipped_def food_draw_def randint_def WIDTH_def HEIGHT_def GRID_SIZE_def
      not_less not_le)

lemma generate_food_result:
  assumes "generate_food s = Some s'"
  shows "food_post s s'"
  apply (rule generate_food.raw_induct[where P = food_post and s = s and y = s'])
  subgoal premises prems for gf t t'
  proof (cases "food_draw (rng t) \<notin> set (position t)")
    case True
    with prems(2) have "t' = t\<lparr>rng := stl (stl (rng t)), food := Some (food_draw (rng t))\<rparr>"
      by (simp add: Let_def food_draw_def)
    with True food_draw_in_grid[of "rng t"] show ?thesis by (simp add: food_post_def)
  next
    case False
    with prems(2) have "gf (t\<lparr>rng := stl (stl (rng t))\<rparr>) = Some t'"
      by (simp add: Let_def food_draw_def)
    from prems(1)[OF this] show ?thesis by (simp add: food_post_def)
  qed
  by (rule assms)

lemma generate_food_returns:
  "food_draw ((next_draw ^^ k) (rng s)) \<notin> set (position s) \<Longrightarrow> \<exists>s'. generate_food s = Some s'"
proof (induction k arbitrary: s)
  case 0
  then show ?case by (subst generate_food_unfold) simp
next
  case (Suc k)
  show ?case
  proof (cases "food_draw (rng s) \<notin> set (position s)")
    case True
    then show ?thesis by (subst generate_food_unfold) simp
  next
    case False
    let ?s1 = "s\<lparr>rng := stl (stl (rng s))\<rparr>"
    have "(next_draw ^^ Suc k) (rng s) = (next_draw ^^ k) (next_draw (rng s))"
      by (simp only: funpow_Suc_right o_apply)
    moreover have "rng ?s1 = next_draw (rng s)" "position ?s1 = position s"
      by (simp_all add: next_draw_def)
    ultimately have "food_draw ((next_draw ^^ k) (rng ?s1)) \<notin> set (position ?s1)"
      using Suc.prems by simp
    from Suc.IH[OF this] obtain s' where "generate_food ?s1 = Some s'" by blast
    with False show ?thesis by (subst generate_food_unfold) simp
  qed
qed

lemma sqrt400: "sqrt 400 = (20::real)"
  using real_sqrt_abs2[of "20::real"] by simp

lemma normalize_axis:
  "normalize_vector (20, 0) = Inr (1, 0)" "normalize_vector (- 20, 0) = Inr (- 1, 0)"
  "normalize_vector (0, 20) = Inr (0, 1)" "normalize_vector (0, - 20) = Inr (0, - 1)"
  by (simp_all add: normalize_vector_def Let_def sqrt400)

lemma normalize_step:
  assumes "d \<in> set directions"
  shows "\<exists>dir. normalize_vector (real_of_int (fst (successor c d) - fst c),
                          real_of_int (snd (successor c d) - snd c)) = Inr dir"
proof -
  from assms consider "d = (1, 0)" | "d = (- 1, 0)" | "d = (0, 1)" | "d = (0, - 1)"
    by (auto simp: directions_def)
  then show ?thesis
  proof cases
    case 1
    then show ?thesis using normalize_axis(1) by (simp add: successor_def GRID_SIZE_def)
  next
    case 2
    then show ?thesis using normalize_axis(2) by (simp add: successor_def GRID_SIZE_def)
  next
    case 3
    then show ?thesis using normalize_axis(3) by (simp add: successor_def GRID_SIZE_def)
  next
    case 4
    then show ?thesis using normalize_axis(4) by (simp add: successor_def GRID_SIZE_def)
  qed
qed

lemma stepwise_second:
  assumes "stepwise path" "2 \<le> length path"
  shows "\<exists>d \<in> set directions. path ! 1 = successor (hd path) d"
proof -
  from assms(2) obtain a b rest where "path = a # b # rest"
    by (cases path; cases "tl path") auto
  with assms(1) show ?thesis by auto
qed

text \<open>What \<^verbatim>\<open>move\<close> does, by the result of the search.\<close>

lemma move_stays:
  assumes "position s = start # rest" "food s = Some target"
    and "astar (position s) start target = Some (Inr None) \<or>
         (\<exists>path. astar (position s) start target = Some (Inr (Some path)) \<and> length path < 2)"
  shows "move s = Some (Inr s)"
  using assms by (auto simp: move_def)

lemma move_advances:
  assumes pos: "position s = start # rest" and food: "food s = Some target"
    and a: "astar (position s) start target = Some (Inr (Some path))" and len: "2 \<le> length path"
  shows "\<exists>dir. move s =
     (if path ! 1 = target
      then map_option Inr (generate_food
             (s\<lparr>direction := dir, position := path ! 1 # position s,
                 snake_length := snake_length s + 1, score := score s + 1\<rparr>))
      else Some (Inr (s\<lparr>direction := dir, position := butlast (path ! 1 # position s)\<rparr>)))"
proof -
  from astar_path[OF a] have h: "hd path = start" and sw: "stepwise path" by simp_all
  from stepwise_second[OF sw len] h obtain d where d: "d \<in> set directions"
    and p1: "path ! 1 = successor start d" by auto
  from normalize_step[OF d, of start] p1 obtain dir where
    n: "normalize_vector (real_of_int (fst (path ! 1) - fst start),
                   real_of_int (snd (path ! 1) - snd start)) = Inr dir"
    by auto
  have "move s =
     (if path ! 1 = target
      then map_option Inr (generate_food
             (s\<lparr>direction := dir, position := path ! 1 # position s,
                 snake_length := snake_length s + 1, score := score s + 1\<rparr>))
      else Some (Inr (s\<lparr>direction := dir, position := butlast (path ! 1 # position s)\<rparr>)))"
    using pos food a len n
    by (simp add: move_def Let_def split: option.splits)
  then show ?thesis ..
qed

text \<open>
  A move along a path of at least two cells: growth when the next cell is the
  food, a shift otherwise.
\<close>

lemma move_with_path:
  assumes "position s = start # rest" and "food s = Some target"
    and "astar (position s) start target = Some (Inr (Some path))" and "2 \<le> length path"
  shows "(path ! 1 = target \<longrightarrow>
           (\<forall>s'. move s = Some (Inr s') \<longrightarrow>
              position s' = target # position s \<and>
              snake_length s' = snake_length s + 1 \<and>
              score s' = score s + 1 \<and>
              (\<exists>f. food s' = Some f \<and> f \<noteq> target \<and> f \<notin> set (position s'))) \<and>
           ((\<exists>k. food_draw ((next_draw ^^ k) (rng s)) \<notin> set (target # position s)) \<longrightarrow>
              (\<exists>s'. move s = Some (Inr s')))) \<and>
         (path ! 1 \<noteq> target \<longrightarrow>
           (\<exists>dir. move s = Some (Inr (s\<lparr>direction := dir,
                                          position := path ! 1 # butlast (position s)\<rparr>))))"
proof -
  from move_advances[OF assms] obtain dir where m: "move s =
     (if path ! 1 = target
      then map_option Inr (generate_food
             (s\<lparr>direction := dir, position := path ! 1 # position s,
                 snake_length := snake_length s + 1, score := score s + 1\<rparr>))
      else Some (Inr (s\<lparr>direction := dir, position := butlast (path ! 1 # position s)\<rparr>)))"
    by blast
  let ?g = "s\<lparr>direction := dir, position := target # position s,
                 snake_length := snake_length s + 1, score := score s + 1\<rparr>"
  show ?thesis
  proof (intro conjI impI allI)
    fix s' assume eat: "path ! 1 = target" and r: "move s = Some (Inr s')"
    with m have "generate_food ?g = Some s'" by (cases "generate_food ?g") auto
    from generate_food_result[OF this] obtain f where
      "position s' = target # position s" "snake_length s' = snake_length s + 1"
      "score s' = score s + 1" "food s' = Some f" "f \<notin> set (target # position s)"
      unfolding food_post_def by auto
    then show "position s' = target # position s"
      "snake_length s' = snake_length s + 1" "score s' = score s + 1"
      "\<exists>f. food s' = Some f \<and> f \<noteq> target \<and> f \<notin> set (position s')"
      by auto
  next
    assume eat: "path ! 1 = target"
      and "\<exists>k. food_draw ((next_draw ^^ k) (rng s)) \<notin> set (target # position s)"
    then obtain k where "food_draw ((next_draw ^^ k) (rng ?g)) \<notin> set (position ?g)" by auto
    from generate_food_returns[OF this] obtain s' where "generate_food ?g = Some s'" by blast
    with m eat show "\<exists>s'. move s = Some (Inr s')" by simp
  next
    assume "path ! 1 \<noteq> target"
    with m assms(1) have "move s = Some (Inr (s\<lparr>direction := dir,
                                          position := path ! 1 # butlast (position s)\<rparr>))"
      by simp
    then show "\<exists>dir. move s = Some (Inr (s\<lparr>direction := dir,
                                          position := path ! 1 # butlast (position s)\<rparr>))" ..
  qed
qed

lemma not_skipped_in_bounds: "\<not> skipped body c \<Longrightarrow> in_bounds c"
  by (auto simp: skipped_def in_bounds_def)

text \<open>The object after a \<^verbatim>\<open>move\<close> that returns: unchanged, advanced, or grown.\<close>

lemma move_result:
  assumes pos: "position s = start # rest" and m: "move s = Some (Inr s')"
  shows "s' = s \<or>
    (\<exists>np. in_bounds np \<and> np \<notin> set (position s) \<and>
       (position s' = np # butlast (position s) \<and> snake_length s' = snake_length s \<and>
          score s' = score s \<and> food s' = food s \<and> food s \<noteq> Some np \<or>
        position s' = np # position s \<and> snake_length s' = snake_length s + 1 \<and>
          score s' = score s + 1 \<and> food s = Some np \<and>
          (\<exists>f. food s' = Some f \<and> f \<notin> set (position s') \<and> in_bounds f)))"
proof -
  from pos m obtain target where food: "food s = Some target"
    by (cases "food s") (auto simp: move_def)
  from astar_returns[of "position s" start target] obtain r where
    r: "astar (position s) start target = Some (Inr r)" by blast
  show ?thesis
  proof (cases r)
    case None
    with r move_stays[OF pos food] m show ?thesis by simp
  next
    case (Some path)
    with r have a: "astar (position s) start target = Some (Inr (Some path))" by simp
    show ?thesis
    proof (cases "length path < 2")
      case True
      with a move_stays[OF pos food] m show ?thesis by auto
    next
      case False
      then have len: "2 \<le> length path" by simp
      let ?np = "path ! 1"
      from astar_path[OF a] have t: "\<forall>x \<in> set (tl path). \<not> skipped (position s) x" by simp
      have "tl path ! 0 = ?np" using len by (simp add: nth_tl)
      moreover have "tl path ! 0 \<in> set (tl path)" using len by (intro nth_mem) simp
      ultimately have "?np \<in> set (tl path)" by simp
      with t have ns: "\<not> skipped (position s) ?np" by blast
      then have np: "in_bounds ?np" "?np \<notin> set (position s)"
        using not_skipped_in_bounds[of "position s" ?np] by (simp_all add: skipped_def)
      from move_advances[OF pos food a len] obtain dir where m': "move s =
         (if ?np = target
          then map_option Inr (generate_food
             (s\<lparr>direction := dir, position := ?np # position s,
                 snake_length := snake_length s + 1, score := score s + 1\<rparr>))
          else Some (Inr (s\<lparr>direction := dir, position := butlast (?np # position s)\<rparr>)))"
        by blast
      show ?thesis
      proof (cases "?np = target")
        case True
        let ?g = "s\<lparr>direction := dir, position := ?np # position s,
                 snake_length := snake_length s + 1, score := score s + 1\<rparr>"
        from m m' True have "generate_food ?g = Some s'" by (cases "generate_food ?g") auto
        from generate_food_result[OF this] obtain f where
          "position s' = ?np # position s" "snake_length s' = snake_length s + 1"
          "score s' = score s + 1" "food s' = Some f" "f \<notin> set (?np # position s)"
          "\<not> skipped [] f"
          unfolding food_post_def by auto
        moreover from this have "in_bounds f" by (simp add: not_skipped_in_bounds)
        ultimately have "position s' = ?np # position s \<and> snake_length s' = snake_length s + 1 \<and>
          score s' = score s + 1 \<and> food s = Some ?np \<and>
          (\<exists>f. food s' = Some f \<and> f \<notin> set (position s') \<and> in_bounds f)"
          using food True by simp
        with np show ?thesis by blast
      next
        case False
        with m m' have "s' = s\<lparr>direction := dir, position := butlast (?np # position s)\<rparr>"
          by simp
        then have "position s' = ?np # butlast (position s) \<and> snake_length s' = snake_length s \<and>
          score s' = score s \<and> food s' = food s \<and> food s \<noteq> Some ?np"
          using pos food False by simp
        with np show ?thesis by blast
      qed
    qed
  qed
qed

lemma reachable_inv:
  "reachable s \<Longrightarrow>
   length_inv s \<and> in_bounds (hd (position s)) \<and>
   (\<exists>f. food s = Some f \<and> f \<notin> set (position s) \<and> in_bounds f)"
proof (induction rule: reachable.induct)
  case (reachable_init r s)
  from generate_food_result[OF reachable_init[unfolded SnakeAI_init_def]]
  show ?case
    by (auto simp: food_post_def length_inv_def in_bounds_def not_skipped_in_bounds
        GRID_SIZE_def WIDTH_def HEIGHT_def skipped_def)
next
  case (reachable_move s s')
  then obtain start rest where pos: "position s = start # rest"
    by (cases "position s") (auto simp: length_inv_def)
  from move_result[OF pos reachable_move.hyps(2)] reachable_move.IH pos show ?case
    by (auto simp: length_inv_def dest: in_set_butlastD)
qed

subsection \<open>The start of a game\<close>

text \<open>
  The first two moves of a game whose random numbers are 6, 5, 0, 0, ...: the
  food is first at \<open>(120, 100)\<close>, next to the head, then at \<open>(0, 0)\<close>.
\<close>

lemma game_init:
  "SnakeAI_init (6 ## 5 ## sconst 0) =
     Some \<lparr>position = [(100, 100)], direction = (1, 0), snake_length = 1,
           food = Some (120, 100), score = 0, rng = sconst 0\<rparr>"
  by (subst SnakeAI_init_def, subst generate_food_unfold)
     (simp add: food_draw_def randint_def GRID_SIZE_def WIDTH_def HEIGHT_def)

lemma game_astar1: "astar [(100, 100)] (100, 100) (120, 100) = Some (Inr (Some [(100, 100), (120, 100)]))"
  by code_simp

lemma game_astar2:
  "astar [(120, 100), (100, 100)] (120, 100) (0, 0) =
     Some (Inr (Some [(120, 100), (120, 80), (100, 80), (80, 80), (60, 80), (40, 80),
          (20, 80), (0, 80), (0, 60), (0, 40), (0, 20), (0, 0)]))"
  by code_simp

lemma game_move1:
  "move \<lparr>position = [(100, 100)], direction = (1, 0), snake_length = 1,
         food = Some (120, 100), score = 0, rng = sconst 0\<rparr> =
   Some (Inr \<lparr>position = [(120, 100), (100, 100)], direction = (1, 0), snake_length = 2,
         food = Some (0, 0), score = 1, rng = sconst 0\<rparr>)"
  by (subst move_def, simp add: game_astar1 normalize_axis, subst generate_food_unfold)
     (simp add: food_draw_def randint_def GRID_SIZE_def WIDTH_def HEIGHT_def)

lemma game_move2:
  "move \<lparr>position = [(120, 100), (100, 100)], direction = (1, 0), snake_length = 2,
         food = Some (0, 0), score = 1, rng = sconst 0\<rparr> =
   Some (Inr \<lparr>position = [(120, 80), (120, 100)], direction = (0, - 1), snake_length = 2,
         food = Some (0, 0), score = 1, rng = sconst 0\<rparr>)"
  by (subst move_def) (simp add: game_astar2 normalize_axis)

section \<open>The claims\<close>

subsection \<open>Shortest paths\<close>

text \<open>
  C1. The heuristic is the Manhattan distance in pixels, while every step costs
  1: the heuristic overestimates the remaining steps twenty times, and the
  first path completed need not be shortest. For the snake below (head at
  \<open>(0, 80)\<close>, four more segments up the column \<open>x = 20\<close>) and food at \<open>(40, 40)\<close>,
  \<^verbatim>\<open>astar\<close> returns a path of 8 steps round the top of the body, while the path
  round its bottom has 6 steps.
\<close>

theorem astar_not_shortest:
  "astar [(0, 80), (20, 80), (20, 60), (20, 40), (20, 20)] (0, 80) (40, 40) =
     Some (Inr (Some [(0, 80), (0, 60), (0, 40), (0, 20), (0, 0), (20, 0), (40, 0), (40, 20), (40, 40)])) \<and>
   length [(0, 80), (0, 60), (0, 40), (0, 20), (0, 0), (20, 0), (40, 0), (40, 20), (40 :: int, 40 :: int)] = 9 \<and>
   free_path [(0, 80), (20, 80), (20, 60), (20, 40), (20, 20)] (0, 80) (40, 40)
     [(0, 80), (0, 100), (20, 100), (40, 100), (40, 80), (40, 60), (40, 40)] \<and>
   length [(0, 80), (0, 100), (20, 100), (40, 100), (40, 80), (40, 60), (40 :: int, 40 :: int)] = 7"
  by code_simp

subsection \<open>Skipped successors\<close>

text \<open>
  C2, as the code has it. A successor is skipped (the state stays as it is)
  whenever it lies outside the screen or in the body, and the end cell is no
  exception: lines 107 to 110 never look at \<^verbatim>\<open>end\<close>. So a call whose end cell
  is in the body, and is not the start, returns \<^verbatim>\<open>None\<close>.
\<close>

theorem occupied_end_skipped:
  "(fst (successor cur d) < 0 \<or> WIDTH \<le> fst (successor cur d) \<or>
    snd (successor cur d) < 0 \<or> HEIGHT \<le> snd (successor cur d) \<or>
    successor cur d \<in> set body \<longrightarrow>
      astar_neighbor body end' cur st d = Inr st) \<and>
   (end' \<in> set body \<and> end' \<noteq> start \<longrightarrow> astar body start end' = Some (Inr None))"
proof
  show "fst (successor cur d) < 0 \<or> WIDTH \<le> fst (successor cur d) \<or>
    snd (successor cur d) < 0 \<or> HEIGHT \<le> snd (successor cur d) \<or>
    successor cur d \<in> set body \<longrightarrow>
      astar_neighbor body end' cur st d = Inr st"
    using astar_neighbor_skip[of body cur d end' st] by (simp add: skipped_def)
  show "end' \<in> set body \<and> end' \<noteq> start \<longrightarrow> astar body start end' = Some (Inr None)"
  proof
    assume a: "end' \<in> set body \<and> end' \<noteq> start"
    show "astar body start end' = Some (Inr None)"
    proof (rule ccontr)
      assume "astar body start end' \<noteq> Some (Inr None)"
      with astar_cases[of body start end'] obtain path where
        ne: "path \<noteq> []" and h: "hd path = start" and l: "last path = end'"
        and t: "\<forall>x \<in> set (tl path). x \<noteq> start \<and> \<not> skipped body x"
        by blast
      have "tl path \<noteq> []"
      proof
        assume "tl path = []"
        with ne have "path = [hd path]" by (cases path) simp_all
        then have "last path = hd path" by (metis last.simps)
        with h l a show False by simp
      qed
      then have "last path \<in> set (tl path)" by (metis last_in_set last_tl)
      with t l have "\<not> skipped body end'" by auto
      with a show False by (simp add: skipped_def)
    qed
  qed
qed

text \<open>C2 as amended, at a head in the corner whose neighbour, the end cell, is in the body.\<close>

theorem occupied_end_skipped_witness:
  "successor (0, 0) (1, 0) \<in> set [(0, 0), (20, 0), (20, 20), (0, 20)] \<and>
   astar_neighbor [(0, 0), (20, 0), (20, 20), (0, 20)] (20, 0) (0, 0)
     \<lparr>open_list = [], came_from = [(0, 0) \<mapsto> None], cost_so_far = [(0, 0) \<mapsto> 0],
      current = Some (0, 0)\<rparr> (1, 0) =
   Inr \<lparr>open_list = [], came_from = [(0, 0) \<mapsto> None], cost_so_far = [(0, 0) \<mapsto> 0],
      current = Some (0, 0)\<rparr> \<and>
   (20, 0) \<in> set [(0, 0), (20, 0), (20, 20), (0 :: int, 20 :: int)] \<and> (20 :: int, 0 :: int) \<noteq> (0, 0) \<and>
   astar [(0, 0), (20, 0), (20, 20), (0, 20)] (0, 0) (20, 0) = Some (Inr None)"
proof -
  have s: "successor (0, 0) (1, 0) \<in> set [(0, 0), (20, 0), (20, 20), (0, 20)]"
    by (simp add: successor_def GRID_SIZE_def)
  have e: "(20, 0) \<in> set [(0, 0), (20, 0), (20, 20), (0 :: int, 20 :: int)] \<and> (20 :: int, 0 :: int) \<noteq> (0, 0)"
    by simp
  from occupied_end_skipped[of "(0, 0)" "(1, 0)" "[(0, 0), (20, 0), (20, 20), (0, 20)]" "(20, 0)"
      "\<lparr>open_list = [], came_from = [(0, 0) \<mapsto> None], cost_so_far = [(0, 0) \<mapsto> 0],
        current = Some (0, 0)\<rparr>" "(0, 0)"] s e
  show ?thesis by blast
qed

text \<open>
  C2 as stated fails there: the end cell \<open>(20, 0)\<close> is inside the screen and
  one step right of the start \<open>(0, 0)\<close>, but it is in the body, the step towards
  it leaves the state unchanged, and the search returns \<^verbatim>\<open>None\<close>.
\<close>

theorem end_not_exempt_counterexample:
  "successor (0, 0) (1, 0) = (20, 0) \<and>
   \<not> (fst (20 :: int, 0 :: int) < 0 \<or> WIDTH \<le> fst (20 :: int, 0 :: int) \<or>
      snd (20 :: int, 0 :: int) < 0 \<or> HEIGHT \<le> snd (20 :: int, 0 :: int)) \<and>
   astar_pop (astar_init (0, 0) (20, 0)) =
     Inr ((0, 0), \<lparr>open_list = [], came_from = [(0, 0) \<mapsto> None], cost_so_far = [(0, 0) \<mapsto> 0],
        current = Some (0, 0)\<rparr>) \<and>
   astar_neighbor [(0, 0), (20, 0), (20, 20), (0, 20)] (20, 0) (0, 0)
     \<lparr>open_list = [], came_from = [(0, 0) \<mapsto> None], cost_so_far = [(0, 0) \<mapsto> 0],
      current = Some (0, 0)\<rparr> (1, 0) =
   Inr \<lparr>open_list = [], came_from = [(0, 0) \<mapsto> None], cost_so_far = [(0, 0) \<mapsto> 0],
      current = Some (0, 0)\<rparr> \<and>
   astar [(0, 0), (20, 0), (20, 20), (0, 20)] (0, 0) (20, 0) = Some (Inr None)"
proof -
  have "astar [(0, 0), (20, 0), (20, 20), (0, 20)] (0, 0) (20, 0) = Some (Inr None)"
    by code_simp
  moreover have "astar_pop (astar_init (0, 0) (20, 0)) =
     Inr ((0, 0), \<lparr>open_list = [], came_from = [(0, 0) \<mapsto> None], cost_so_far = [(0, 0) \<mapsto> 0],
        current = Some (0, 0)\<rparr>)"
    by (simp add: astar_pop_def astar_init_def heappush_def heappop_def siftdown_def
        siftdown_loop.simps heuristic_def)
  moreover have "astar_neighbor [(0, 0), (20, 0), (20, 20), (0, 20)] (20, 0) (0, 0)
     \<lparr>open_list = [], came_from = [(0, 0) \<mapsto> None], cost_so_far = [(0, 0) \<mapsto> 0],
      current = Some (0, 0)\<rparr> (1, 0) =
   Inr \<lparr>open_list = [], came_from = [(0, 0) \<mapsto> None], cost_so_far = [(0, 0) \<mapsto> 0],
      current = Some (0, 0)\<rparr>"
    by (simp add: astar_neighbor_def successor_def skipped_def GRID_SIZE_def)
  ultimately show ?thesis
    by (simp add: successor_def GRID_SIZE_def WIDTH_def HEIGHT_def)
qed

subsection \<open>The order of the frontier\<close>

text \<open>
  C3, as the code has it. \<open>L\<close> is the log of the run so far: a pair for each
  assignment to \<^verbatim>\<open>cost_so_far\<close> (lines 98 and 114), of the cell and the cost
  it was given. Every entry of the frontier is the entry of an assignment of its
  own in the log, and its priority is the cost of that assignment plus the
  heuristic of its cell. The pop returns such an entry, whose cost is not below
  the cost its cell has by now, and this entry is least among the entries in the
  lexicographic order of the tuples \<^verbatim>\<open>(priority, (x, y))\<close>: least priority
  first, and among equal priorities the cell with the smaller x, then the smaller
  y. The order of insertion plays no part. And each round of the \<^verbatim>\<open>for\<close> loop
  either leaves \<^verbatim>\<open>cost_so_far\<close> and the frontier as they are, or gives the
  successor the cost of the expanded cell plus one, which it did not have, and
  pushes the successor with that cost plus its heuristic as priority.
\<close>

theorem frontier_pops_least:
  assumes "run_log body start end' st L" and "astar_pop st = Inr (cur, st1)"
  shows "mset (open_list st) \<subseteq># image_mset (\<lambda>(c, g). (int g + heuristic c end', c)) L \<and>
         (\<exists>g g'. (cur, g) \<in># L \<and> (int g + heuristic cur end', cur) \<in> set (open_list st) \<and>
           cost_so_far st cur = Some g' \<and> g' \<le> g \<and>
           (\<forall>e \<in> set (open_list st).
              int g + heuristic cur end' < fst e \<or>
              int g + heuristic cur end' = fst e \<and>
                (fst cur < fst (snd e) \<or> fst cur = fst (snd e) \<and> snd cur \<le> snd (snd e)))) \<and>
         (astar_neighbor body end' c st2 d = Inr st3 \<longrightarrow>
            cost_so_far st3 = cost_so_far st2 \<and> open_list st3 = open_list st2 \<or>
            (\<exists>g. cost_so_far st2 c = Some g \<and>
               cost_so_far st3 = (cost_so_far st2)(successor c d \<mapsto> g + 1) \<and>
               cost_so_far st2 (successor c d) \<noteq> Some (g + 1) \<and>
               open_list st3 = heappush (open_list st2)
                 (int (g + 1) + heuristic (successor c d) end', successor c d)))"
proof -
  have round: "astar_neighbor body end' c st2 d = Inr st3 \<longrightarrow>
            cost_so_far st3 = cost_so_far st2 \<and> open_list st3 = open_list st2 \<or>
            (\<exists>g. cost_so_far st2 c = Some g \<and>
               cost_so_far st3 = (cost_so_far st2)(successor c d \<mapsto> g + 1) \<and>
               cost_so_far st2 (successor c d) \<noteq> Some (g + 1) \<and>
               open_list st3 = heappush (open_list st2)
                 (int (g + 1) + heuristic (successor c d) end', successor c d))"
  proof
    assume "astar_neighbor body end' c st2 d = Inr st3"
    from astar_neighbor_cases[OF this]
    show "cost_so_far st3 = cost_so_far st2 \<and> open_list st3 = open_list st2 \<or>
            (\<exists>g. cost_so_far st2 c = Some g \<and>
               cost_so_far st3 = (cost_so_far st2)(successor c d \<mapsto> g + 1) \<and>
               cost_so_far st2 (successor c d) \<noteq> Some (g + 1) \<and>
               open_list st3 = heappush (open_list st2)
                 (int (g + 1) + heuristic (successor c d) end', successor c d))"
    proof
      assume "st3 = st2"
      then show ?thesis by simp
    next
      assume "\<exists>k. \<not> skipped body (successor c d) \<and> cost_so_far st2 c = Some k \<and>
       (case cost_so_far st2 (successor c d) of None \<Rightarrow> True | Some old \<Rightarrow> k + 1 < old) \<and>
       st3 = st2\<lparr>cost_so_far := (cost_so_far st2)(successor c d \<mapsto> k + 1),
                open_list := heappush (open_list st2)
                   (int (k + 1) + heuristic (successor c d) end', successor c d),
                came_from := (came_from st2)(successor c d \<mapsto> Some c)\<rparr>"
      then obtain k where k: "cost_so_far st2 c = Some k"
        and better: "case cost_so_far st2 (successor c d) of None \<Rightarrow> True | Some old \<Rightarrow> k + 1 < old"
        and cs: "cost_so_far st3 = (cost_so_far st2)(successor c d \<mapsto> k + 1)"
        and ol: "open_list st3 = heappush (open_list st2)
                   (int (k + 1) + heuristic (successor c d) end', successor c d)"
        by auto
      from better have "cost_so_far st2 (successor c d) \<noteq> Some (k + 1)"
        by (auto split: option.splits)
      with k cs ol show ?thesis by blast
    qed
  qed
  from run_log_frontier[OF assms(1)] have sub: "mset (open_list st) \<subseteq># image_mset (\<lambda>(c, g). (int g + heuristic c end', c)) L" .
  from loop_state_prio_inv[OF run_log_loop_state[OF assms(1)]] have hi: "heap_inv (open_list st)"
    and e: "\<And>e. e \<in> set (open_list st) \<Longrightarrow> \<exists>g g'. fst e = int g + heuristic (snd e) end' \<and>
         cost_so_far st (snd e) = Some g' \<and> g' \<le> g"
    unfolding prio_inv_def by blast+
  from astar_pop_Inr[OF assms(2)] obtain item rest
    where h: "heappop (open_list st) = Inr (item, rest)" and cur: "cur = snd item"
    by blast
  from set_heappop[OF h] have mem: "item \<in> set (open_list st)" by blast
  then have "item \<in># mset (open_list st)" by simp
  with sub have "item \<in># image_mset (\<lambda>(c, g). (int g + heuristic c end', c)) L" by (rule mset_subset_eqD)
  then obtain a where a: "a \<in># L" "item = (case a of (c, g) \<Rightarrow> (int g + heuristic c end', c))"
    by auto
  obtain c g where cg: "a = (c, g)" by (cases a)
  with a cur have c: "c = cur" and item: "item = (int g + heuristic cur end', cur)"
    by simp_all
  from a(1) cg c have inL: "(cur, g) \<in># L" by simp
  from e[OF mem] obtain g2 g' where g2: "fst item = int g2 + heuristic (snd item) end'"
    "cost_so_far st (snd item) = Some g'" "g' \<le> g2" by blast
  have "fst item = int g + heuristic cur end'" "snd item = cur" unfolding item by simp_all
  with g2 have g': "cost_so_far st cur = Some g'" "g' \<le> g" by simp_all
  from heap_inv_heappop(2)[OF hi h] have least: "\<forall>x \<in> set (open_list st). item \<le> x" .
  have "\<forall>x \<in> set (open_list st).
              int g + heuristic cur end' < fst x \<or>
              int g + heuristic cur end' = fst x \<and>
                (fst cur < fst (snd x) \<or> fst cur = fst (snd x) \<and> snd cur \<le> snd (snd x))"
  proof
    fix x assume "x \<in> set (open_list st)"
    with least have "item \<le> x" by blast
    then show "int g + heuristic cur end' < fst x \<or>
              int g + heuristic cur end' = fst x \<and>
                (fst cur < fst (snd x) \<or> fst cur = fst (snd x) \<and> snd cur \<le> snd (snd x))"
      unfolding item by (cases x, cases cur) (auto simp: less_eq_prod_def)
  qed
  with mem item g' inL have "\<exists>g g'. (cur, g) \<in># L \<and>
           (int g + heuristic cur end', cur) \<in> set (open_list st) \<and>
           cost_so_far st cur = Some g' \<and> g' \<le> g \<and>
           (\<forall>e \<in> set (open_list st).
              int g + heuristic cur end' < fst e \<or>
              int g + heuristic cur end' = fst e \<and>
                (fst cur < fst (snd e) \<or> fst cur = fst (snd e) \<and> snd cur \<le> snd (snd e)))"
    by blast
  with sub round show ?thesis by (intro conjI)
qed

text \<open>
  C3 as amended, in the state after the first iteration of the search from
  \<open>(100, 100)\<close> to \<open>(120, 120)\<close>: the log has the start at cost 0 and its four
  successors at cost 1, the pop returns \<open>(100, 120)\<close> with priority 1 + 20, and
  the first round of the first expansion pushed \<open>(120, 100)\<close> at cost 0 + 1.
\<close>

theorem frontier_pops_least_witness:
  "map_sum id fst (astar_pop (projr (astar_neighbors [(100, 100)] (120, 120) (100, 100) directions
       (snd (projr (astar_pop (astar_init (100, 100) (120, 120)))))))) = Inr (100, 120) \<and>
   open_list (projr (astar_neighbors [(100, 100)] (120, 120) (100, 100) directions
       (snd (projr (astar_pop (astar_init (100, 100) (120, 120))))))) =
     [(21, (100, 120)), (61, (80, 100)), (21, (120, 100)), (61, (100, 80))] \<and>
   assignments [(100, 100)] (120, 120) (100, 100) directions
       (snd (projr (astar_pop (astar_init (100, 100) (120, 120))))) =
     [((120, 100), 1), ((80, 100), 1), ((100, 120), 1), ((100, 80), 1)] \<and>
   (\<exists>g. ((100, 120), g) \<in># {#((120 :: int, 100 :: int), 1), ((80, 100), 1), ((100, 120), 1),
           ((100, 80), 1), ((100, 100), 0)#} \<and>
        (int g + heuristic (100, 120) (120, 120), (100, 120)) \<in>
      set (open_list (projr (astar_neighbors [(100, 100)] (120, 120) (100, 100) directions
       (snd (projr (astar_pop (astar_init (100, 100) (120, 120))))))))) \<and>
   cost_so_far (snd (projr (astar_pop (astar_init (100, 100) (120, 120))))) (100, 100) = Some 0 \<and>
   successor (100, 100) (1, 0) = (120, 100) \<and>
   open_list (projr (astar_neighbor [(100, 100)] (120, 120) (100, 100)
       (snd (projr (astar_pop (astar_init (100, 100) (120, 120))))) (1, 0))) =
     heappush (open_list (snd (projr (astar_pop (astar_init (100, 100) (120, 120))))))
       (int (0 + 1) + heuristic (120, 100) (120, 120), (120, 100)) \<and>
   cost_so_far (projr (astar_neighbor [(100, 100)] (120, 120) (100, 100)
       (snd (projr (astar_pop (astar_init (100, 100) (120, 120))))) (1, 0))) (120, 100) = Some 1"
proof -
  let ?s3 = "projr (astar_neighbor [(100, 100)] (120, 120) (100, 100)
       (snd (projr (astar_pop (astar_init (100, 100) (120, 120))))) (1, 0))"
  let ?I = "astar_init (100, 100) (120, 120)"
  let ?st1 = "snd (projr (astar_pop ?I))"
  let ?st2 = "projr (astar_neighbors [(100, 100)] (120, 120) (100, 100) directions ?st1)"
  let ?L = "{#((120, 100), 1), ((80, 100), 1), ((100, 120), 1), ((100, 80), 1),
           ((100 :: int, 100 :: int), 0 :: nat)#}"
  have "map_sum id fst (astar_pop ?I) = Inr (100, 100)" by code_simp
  then have pop1: "astar_pop ?I = Inr ((100, 100), ?st1)" by (rule Inr_fst_projr)
  have "\<not> isl (astar_neighbors [(100, 100)] (120, 120) (100, 100) directions ?st1)" by code_simp
  then have nb1: "astar_neighbors [(100, 100)] (120, 120) (100, 100) directions ?st1 = Inr ?st2"
    by (rule Inr_projr)
  have ne: "((100, 100) :: cell) \<noteq> (120, 120)" by simp
  have as: "assignments [(100, 100)] (120, 120) (100, 100) directions ?st1 =
     [((120, 100), 1), ((80, 100), 1), ((100, 120), 1), ((100, 80), 1)]" by code_simp
  have "run_log [(100, 100)] (100, 100) (120, 120) ?st2
     ({#((100, 100), 0)#} + mset (assignments [(100, 100)] (120, 120) (100, 100) directions ?st1))"
    by (rule log_step[OF log_init pop1 ne nb1])
  then have ls: "run_log [(100, 100)] (100, 100) (120, 120) ?st2 ?L"
    unfolding as by simp
  have p2: "map_sum id fst (astar_pop ?st2) = Inr (100, 120)" by code_simp
  then have pop2: "astar_pop ?st2 = Inr ((100, 120), snd (projr (astar_pop ?st2)))"
    by (rule Inr_fst_projr)
  have ol: "open_list ?st2 = [(21, (100, 120)), (61, (80, 100)), (21, (120, 100)), (61, (100, 80))]"
    by code_simp
  have "\<not> isl (astar_neighbor [(100, 100)] (120, 120) (100, 100) ?st1 (1, 0))" by code_simp
  then have r: "astar_neighbor [(100, 100)] (120, 120) (100, 100) ?st1 (1, 0) = Inr ?s3"
    by (rule Inr_projr)
  have c0: "cost_so_far ?st1 (100, 100) = Some 0" by code_simp
  have sc: "successor (100, 100) (1, 0) = (120, 100)" by code_simp
  have changed: "open_list ?s3 \<noteq> open_list ?st1" by code_simp
  note t = frontier_pops_least[OF ls pop2, where c = "(100, 100)" and ?st2.0 = ?st1
      and d = "(1, 0)" and ?st3.0 = ?s3]
  from t have
    a: "\<exists>g. ((100, 120), g) \<in># ?L \<and>
        (int g + heuristic (100, 120) (120, 120), (100, 120)) \<in> set (open_list ?st2)"
    by blast
  from t r changed c0 have b:
    "cost_so_far ?s3 = (cost_so_far ?st1)(successor (100, 100) (1, 0) \<mapsto> 0 + 1) \<and>
     open_list ?s3 = heappush (open_list ?st1)
       (int (0 + 1) + heuristic (successor (100, 100) (1, 0)) (120, 120), successor (100, 100) (1, 0))"
    by auto
  then have b1: "cost_so_far ?s3 (120, 100) = Some 1" unfolding sc by simp
  from b have b2: "open_list ?s3 = heappush (open_list ?st1)
       (int (0 + 1) + heuristic (120, 100) (120, 120), (120, 100))" unfolding sc by blast
  from p2 ol as a c0 sc b1 b2 show ?thesis by (intro conjI)
qed

text \<open>
  C3 as stated fails in that state. The first direction pushes \<open>(21, (120, 100))\<close>
  onto the empty frontier, the third pushes \<open>(21, (100, 120))\<close> with the same
  priority, and the next pop returns the cell \<open>(100, 120)\<close>, inserted later.
\<close>

theorem ties_by_cell_counterexample:
  "open_list (projr (astar_neighbor [(100, 100)] (120, 120) (100, 100)
       (snd (projr (astar_pop (astar_init (100, 100) (120, 120))))) (directions ! 0))) =
     [(21, (120, 100))] \<and>
   open_list (projr (astar_neighbors [(100, 100)] (120, 120) (100, 100) directions
       (snd (projr (astar_pop (astar_init (100, 100) (120, 120))))))) =
     [(21, (100, 120)), (61, (80, 100)), (21, (120, 100)), (61, (100, 80))] \<and>
   map_sum id fst (astar_pop (projr (astar_neighbors [(100, 100)] (120, 120) (100, 100) directions
       (snd (projr (astar_pop (astar_init (100, 100) (120, 120)))))))) = Inr (100, 120) \<and>
   expansions 2 [(100, 100)] (120, 120) (astar_init (100, 100) (120, 120)) =
     [(100, 100), (100, 120)]"
  by code_simp

subsection \<open>Expansions and pushes\<close>

text \<open>
  C4, as the code has it. Each expansion takes one entry of the expanded cell
  off the frontier, and a successor is pushed only when it has no cost yet or
  the new cost is strictly smaller than its cost so far. The loop keeps no set
  of expanded cells, so a cell is expanded once for each of its entries.
\<close>

theorem enqueue_only_cheaper:
  "(astar_pop st = Inr (cur, st1) \<longrightarrow>
      (\<exists>priority. mset (open_list st) = add_mset (priority, cur) (mset (open_list st1)))) \<and>
   (astar_neighbor body end' cur st1 d = Inr st2 \<and> open_list st2 \<noteq> open_list st1 \<longrightarrow>
      (\<exists>new_cost. cost_so_far st2 (successor cur d) = Some new_cost \<and>
         (case cost_so_far st1 (successor cur d) of None \<Rightarrow> True | Some old \<Rightarrow> new_cost < old) \<and>
         mset (open_list st2) =
           add_mset (int new_cost + heuristic (successor cur d) end', successor cur d)
             (mset (open_list st1))))"
proof (intro conjI impI)
  assume "astar_pop st = Inr (cur, st1)"
  from astar_pop_Inr[OF this] obtain item rest
    where h: "heappop (open_list st) = Inr (item, rest)" and cur: "cur = snd item"
      and st1: "st1 = st\<lparr>open_list := rest, current := Some cur\<rparr>"
    by blast
  from mset_heappop[OF h] cur st1 have
    "mset (open_list st) = add_mset (fst item, cur) (mset (open_list st1))" by simp
  then show "\<exists>priority. mset (open_list st) = add_mset (priority, cur) (mset (open_list st1))" ..
next
  assume a: "astar_neighbor body end' cur st1 d = Inr st2 \<and> open_list st2 \<noteq> open_list st1"
  let ?n = "successor cur d"
  from a astar_neighbor_cases[of body end' cur st1 d st2] obtain c where
    better: "case cost_so_far st1 ?n of None \<Rightarrow> True | Some old \<Rightarrow> c + 1 < old"
    and st2: "st2 = st1\<lparr>cost_so_far := (cost_so_far st1)(?n \<mapsto> c + 1),
                open_list := heappush (open_list st1) (int (c + 1) + heuristic ?n end', ?n),
                came_from := (came_from st1)(?n \<mapsto> Some cur)\<rparr>"
    by blast
  have "cost_so_far st2 ?n = Some (c + 1)" using st2 by simp
  moreover have "mset (open_list st2) =
      add_mset (int (c + 1) + heuristic ?n end', ?n) (mset (open_list st1))"
    using st2 by (simp add: mset_heappush)
  ultimately show "\<exists>new_cost. cost_so_far st2 ?n = Some new_cost \<and>
         (case cost_so_far st1 ?n of None \<Rightarrow> True | Some old \<Rightarrow> new_cost < old) \<and>
         mset (open_list st2) = add_mset (int new_cost + heuristic ?n end', ?n) (mset (open_list st1))"
    using better by blast
qed

text \<open>
  C4 as amended, at the 24th iteration of the run below: \<open>(0, 100)\<close> is popped and
  its successor \<open>(20, 100)\<close>, reached before at cost 16, is pushed again at cost 2.
\<close>

theorem enqueue_only_cheaper_witness:
  "map_sum id fst (astar_pop (projr (astar_steps 23
       [(0, 80), (20, 80), (20, 60), (20, 40), (20, 20), (40, 20), (60, 20), (60, 40), (60, 60), (40, 60)]
       (40, 40) (astar_init (0, 80) (40, 40))))) = Inr (0, 100) \<and>
   successor (0, 100) (1, 0) = (20, 100) \<and>
   cost_so_far (snd (projr (astar_pop (projr (astar_steps 23
       [(0, 80), (20, 80), (20, 60), (20, 40), (20, 20), (40, 20), (60, 20), (60, 40), (60, 60), (40, 60)]
       (40, 40) (astar_init (0, 80) (40, 40))))))) (20, 100) = Some 16 \<and>
   cost_so_far (projr (astar_neighbor
       [(0, 80), (20, 80), (20, 60), (20, 40), (20, 20), (40, 20), (60, 20), (60, 40), (60, 60), (40, 60)]
       (40, 40) (0, 100)
       (snd (projr (astar_pop (projr (astar_steps 23
         [(0, 80), (20, 80), (20, 60), (20, 40), (20, 20), (40, 20), (60, 20), (60, 40), (60, 60), (40, 60)]
         (40, 40) (astar_init (0, 80) (40, 40))))))) (1, 0))) (20, 100) = Some 2 \<and>
   (\<exists>priority. mset (open_list (projr (astar_steps 23
       [(0, 80), (20, 80), (20, 60), (20, 40), (20, 20), (40, 20), (60, 20), (60, 40), (60, 60), (40, 60)]
       (40, 40) (astar_init (0, 80) (40, 40))))) =
     add_mset (priority, (0, 100)) (mset (open_list (snd (projr (astar_pop (projr (astar_steps 23
       [(0, 80), (20, 80), (20, 60), (20, 40), (20, 20), (40, 20), (60, 20), (60, 40), (60, 60), (40, 60)]
       (40, 40) (astar_init (0, 80) (40, 40)))))))))) \<and>
   (\<exists>new_cost. mset (open_list (projr (astar_neighbor
       [(0, 80), (20, 80), (20, 60), (20, 40), (20, 20), (40, 20), (60, 20), (60, 40), (60, 60), (40, 60)]
       (40, 40) (0, 100)
       (snd (projr (astar_pop (projr (astar_steps 23
         [(0, 80), (20, 80), (20, 60), (20, 40), (20, 20), (40, 20), (60, 20), (60, 40), (60, 60), (40, 60)]
         (40, 40) (astar_init (0, 80) (40, 40))))))) (1, 0)))) =
     add_mset (int new_cost + heuristic (successor (0, 100) (1, 0)) (40, 40), successor (0, 100) (1, 0))
       (mset (open_list (snd (projr (astar_pop (projr (astar_steps 23
         [(0, 80), (20, 80), (20, 60), (20, 40), (20, 20), (40, 20), (60, 20), (60, 40), (60, 60), (40, 60)]
         (40, 40) (astar_init (0, 80) (40, 40))))))))))"
proof -
  let ?B = "[(0, 80), (20, 80), (20, 60), (20, 40), (20, 20), (40, 20), (60, 20), (60, 40),
     (60, 60), (40 :: int, 60 :: int)]"
  let ?st = "projr (astar_steps 23 ?B (40, 40) (astar_init (0, 80) (40, 40)))"
  let ?st1 = "snd (projr (astar_pop ?st))"
  let ?st' = "projr (astar_neighbor ?B (40, 40) (0, 100) ?st1 (1, 0))"
  have p: "map_sum id fst (astar_pop ?st) = Inr (0, 100)" by code_simp
  then have pop: "astar_pop ?st = Inr ((0, 100), ?st1)" by (rule Inr_fst_projr)
  have s: "successor (0, 100) (1, 0) = (20, 100)" by code_simp
  have c1: "cost_so_far ?st1 (20, 100) = Some 16" by code_simp
  have c2: "cost_so_far ?st' (20, 100) = Some 2" by code_simp
  have "\<not> isl (astar_neighbor ?B (40, 40) (0, 100) ?st1 (1, 0))" by code_simp
  then have nb: "astar_neighbor ?B (40, 40) (0, 100) ?st1 (1, 0) = Inr ?st'" by (rule Inr_projr)
  have ne: "open_list ?st' \<noteq> open_list ?st1" by code_simp
  from enqueue_only_cheaper[of ?st "(0, 100)" ?st1 ?B "(40, 40)" "(1, 0)" ?st']
    pop nb ne
  have "(\<exists>priority. mset (open_list ?st) = add_mset (priority, (0, 100)) (mset (open_list ?st1)))"
    and "(\<exists>new_cost. mset (open_list ?st') =
       add_mset (int new_cost + heuristic (successor (0, 100) (1, 0)) (40, 40), successor (0, 100) (1, 0))
        (mset (open_list ?st1)))"
    by blast+
  with p s c1 c2 show ?thesis by blast
qed

text \<open>
  C4 as stated fails in that run: the first 25 expansions contain \<open>(20, 100)\<close>
  twice, before and after its cost was lowered.
\<close>

theorem expanded_twice_counterexample:
  "expansions 25
     [(0, 80), (20, 80), (20, 60), (20, 40), (20, 20), (40, 20), (60, 20), (60, 40), (60, 60), (40, 60)]
     (40, 40) (astar_init (0, 80) (40, 40)) =
   [(0, 80), (0, 60), (0, 40), (0, 20), (0, 0), (20, 0), (40, 0), (60, 0), (80, 0), (80, 20),
    (80, 40), (80, 60), (100, 40), (100, 20), (80, 80), (60, 80), (40, 80), (40, 100), (100, 60),
    (120, 40), (60, 100), (20, 100), (40, 120), (0, 100), (20, 100)] \<and>
   \<not> distinct (expansions 25
     [(0, 80), (20, 80), (20, 60), (20, 40), (20, 20), (40, 20), (60, 20), (60, 40), (60, 60), (40, 60)]
     (40, 40) (astar_init (0, 80) (40, 40)))"
  by code_simp

subsection \<open>The returned path\<close>

text \<open>
  C5. When \<^verbatim>\<open>astar\<close> returns a path, the path starts at \<open>start\<close>, ends at
  \<open>end'\<close>, each cell is followed by an orthogonal neighbour one step away, no
  interior cell is in the body, and for \<open>start = end'\<close> the path is \<open>[start]\<close>.
\<close>

theorem astar_path_valid:
  assumes "astar body start end' = Some (Inr (Some path))"
  shows "path \<noteq> [] \<and> hd path = start \<and> last path = end' \<and> stepwise path \<and>
         (\<forall>c \<in> set (butlast (tl path)). c \<notin> set body) \<and>
         (start = end' \<longrightarrow> path = [start])"
proof -
  from astar_path[OF assms] have ne: "path \<noteq> []" and h: "hd path = start"
    and l: "last path = end'" and sw: "stepwise path"
    and t: "\<forall>x \<in> set (tl path). x \<noteq> start \<and> \<not> skipped body x"
    by simp_all
  have "\<forall>c \<in> set (butlast (tl path)). c \<notin> set body"
  proof
    fix c assume "c \<in> set (butlast (tl path))"
    then have "c \<in> set (tl path)" by (rule in_set_butlastD)
    with t have "\<not> skipped body c" by simp
    then show "c \<notin> set body" by (simp add: skipped_def)
  qed
  moreover have "start = end' \<longrightarrow> path = [start]"
  proof
    assume eq: "start = end'"
    have "tl path = []"
    proof (rule ccontr)
      assume n: "tl path \<noteq> []"
      then have "last (tl path) \<in> set (tl path)" by simp
      moreover have "last (tl path) = last path" using n by (simp add: last_tl)
      ultimately show False using t l eq by auto
    qed
    with ne h show "path = [start]" by (cases path) simp_all
  qed
  ultimately show ?thesis using ne h l sw by simp
qed

text \<open>C5 on two calls: a path of three cells, and the call with \<open>start = end'\<close>.\<close>

theorem astar_path_valid_witness:
  "astar [(100, 100)] (100, 100) (120, 120) = Some (Inr (Some [(100, 100), (100, 120), (120, 120)])) \<and>
   hd [(100, 100), (100, 120), (120, 120)] = ((100, 100) :: cell) \<and>
   last [(100, 100), (100, 120), (120, 120)] = ((120, 120) :: cell) \<and>
   stepwise [(100, 100), (100, 120), (120, 120)] \<and>
   set (butlast (tl [(100, 100), (100, 120), (120, 120)])) \<inter> set [(100 :: int, 100 :: int)] = {} \<and>
   astar [(100, 100)] (100, 100) (100, 100) = Some (Inr (Some [(100, 100)]))"
proof -
  have a: "astar [(100, 100)] (100, 100) (120, 120) =
      Some (Inr (Some [(100, 100), (100, 120), (120, 120)]))"
    by code_simp
  have b: "astar [(100, 100)] (100, 100) (100, 100) = Some (Inr (Some [(100, 100)]))"
    by code_simp
  from astar_path_valid[OF a] astar_path_valid[OF b] a b show ?thesis by simp
qed

subsection \<open>Growth\<close>

text \<open>
  C6. In a state with segments and food, the next cell is \<open>path[1]\<close> of the
  path the search returns, if it returns one of at least 2 cells. If the next
  cell is the food, a \<^verbatim>\<open>move\<close> that returns has put it in front of the
  segments and removed none, has added one to \<open>length\<close> and one to the score,
  and has generated a new food, a cell outside the new body; it does return as
  soon as one of the candidates drawn from the random numbers is free. If the
  next cell is another cell, \<^verbatim>\<open>move\<close> returns, having put it in front of the
  segments and removed the last of them: the number of segments, \<open>length\<close>,
  the score and the food are the same. If there is no next cell, \<^verbatim>\<open>move\<close>
  returns the state as it was.
\<close>

theorem move_growth:
  assumes "position s \<noteq> []" and "food s = Some target"
  shows "(next_cell s = Some target \<longrightarrow>
           (\<forall>s'. move s = Some (Inr s') \<longrightarrow>
              position s' = target # position s \<and>
              length (position s') = length (position s) + 1 \<and>
              snake_length s' = snake_length s + 1 \<and>
              score s' = score s + 1 \<and>
              (\<exists>f. food s' = Some f \<and> f \<noteq> target \<and> f \<notin> set (position s'))) \<and>
           ((\<exists>k. food_draw ((next_draw ^^ k) (rng s)) \<notin> set (target # position s)) \<longrightarrow>
              (\<exists>s'. move s = Some (Inr s')))) \<and>
         (\<forall>c. next_cell s = Some c \<and> c \<noteq> target \<longrightarrow>
           (\<exists>s'. move s = Some (Inr s') \<and>
              position s' = c # butlast (position s) \<and>
              length (position s') = length (position s) \<and>
              snake_length s' = snake_length s \<and>
              score s' = score s \<and> food s' = food s)) \<and>
         (next_cell s = None \<longrightarrow> move s = Some (Inr s))"
proof -
  from assms(1) obtain start rest where pos: "position s = start # rest"
    by (cases "position s") auto
  from astar_returns[of "position s" start target] obtain r where
    r: "astar (position s) start target = Some (Inr r)" by blast
  show ?thesis
  proof (cases "\<exists>path. r = Some path \<and> 2 \<le> length path")
    case False
    then have "astar (position s) start target = Some (Inr None) \<or>
         (\<exists>path. astar (position s) start target = Some (Inr (Some path)) \<and> length path < 2)"
      using r by (cases r) auto
    from move_stays[OF pos assms(2) this] have m: "move s = Some (Inr s)" .
    have "next_cell s = None"
      using False r pos assms(2) by (cases r) (auto simp: next_cell_def)
    with m show ?thesis by simp
  next
    case True
    then obtain path where a: "astar (position s) start target = Some (Inr (Some path))"
      and len: "2 \<le> length path" using r by auto
    have n: "next_cell s = Some (path ! 1)"
      using a len pos assms(2) by (simp add: next_cell_def)
    note w = move_with_path[OF pos assms(2) a len]
    show ?thesis
    proof (cases "path ! 1 = target")
      case True
      from w have "path ! 1 = target \<longrightarrow>
           (\<forall>s'. move s = Some (Inr s') \<longrightarrow>
              position s' = target # position s \<and>
              snake_length s' = snake_length s + 1 \<and>
              score s' = score s + 1 \<and>
              (\<exists>f. food s' = Some f \<and> f \<noteq> target \<and> f \<notin> set (position s'))) \<and>
           ((\<exists>k. food_draw ((next_draw ^^ k) (rng s)) \<notin> set (target # position s)) \<longrightarrow>
              (\<exists>s'. move s = Some (Inr s')))"
        by (rule conjunct1)
      from this True have gt: "(\<forall>s'. move s = Some (Inr s') \<longrightarrow>
              position s' = target # position s \<and>
              snake_length s' = snake_length s + 1 \<and>
              score s' = score s + 1 \<and>
              (\<exists>f. food s' = Some f \<and> f \<noteq> target \<and> f \<notin> set (position s'))) \<and>
           ((\<exists>k. food_draw ((next_draw ^^ k) (rng s)) \<notin> set (target # position s)) \<longrightarrow>
              (\<exists>s'. move s = Some (Inr s')))"
        by (rule mp)
      from n True have n': "next_cell s = Some target" by simp
      show ?thesis
      proof (intro conjI impI allI)
        fix s' assume "move s = Some (Inr s')"
        with gt have g: "position s' = target # position s \<and>
              snake_length s' = snake_length s + 1 \<and>
              score s' = score s + 1 \<and>
              (\<exists>f. food s' = Some f \<and> f \<noteq> target \<and> f \<notin> set (position s'))"
          by (elim conjE allE[of _ s']) (rule mp)
        from g show "position s' = target # position s" by blast
        from g show "snake_length s' = snake_length s + 1" by blast
        from g show "score s' = score s + 1" by blast
        from g show "\<exists>f. food s' = Some f \<and> f \<noteq> target \<and> f \<notin> set (position s')"
          by blast
        from g have "position s' = target # position s" by (rule conjunct1)
        then show "length (position s') = length (position s) + 1" by simp
      next
        assume "\<exists>k. food_draw ((next_draw ^^ k) (rng s)) \<notin> set (target # position s)"
        with gt show "\<exists>s'. move s = Some (Inr s')" by (elim conjE) (rule mp)
      next
        fix c assume "next_cell s = Some c \<and> c \<noteq> target"
        with n' have False by simp
        then show "\<exists>s'. move s = Some (Inr s') \<and>
              position s' = c # butlast (position s) \<and>
              length (position s') = length (position s) \<and>
              snake_length s' = snake_length s \<and>
              score s' = score s \<and> food s' = food s" ..
      next
        assume "next_cell s = None"
        with n' have False by simp
        then show "move s = Some (Inr s)" ..
      qed
    next
      case False
      from w have "path ! 1 \<noteq> target \<longrightarrow>
           (\<exists>dir. move s = Some (Inr (s\<lparr>direction := dir,
                                          position := path ! 1 # butlast (position s)\<rparr>)))"
        by (rule conjunct2)
      from this False have "\<exists>dir. move s = Some (Inr (s\<lparr>direction := dir,
                                          position := path ! 1 # butlast (position s)\<rparr>))"
        by (rule mp)
      then obtain dir where m: "move s = Some (Inr (s\<lparr>direction := dir,
                                          position := path ! 1 # butlast (position s)\<rparr>))" ..
      let ?s' = "s\<lparr>direction := dir, position := path ! 1 # butlast (position s)\<rparr>"
      have l: "length (position ?s') = length (position s)" using pos by simp
      have p: "position ?s' = path ! 1 # butlast (position s)" "snake_length ?s' = snake_length s"
        "score ?s' = score s" "food ?s' = food s" by simp_all
      from n False have n': "next_cell s \<noteq> Some target" by simp
      show ?thesis
      proof (intro conjI impI allI)
        assume "next_cell s = Some target"
        with n' show "\<exists>s'. move s = Some (Inr s')" by (rule notE)
      next
        fix s' :: snake assume "next_cell s = Some target"
        with n' have False by (rule notE)
        then show "position s' = target # position s"
          "length (position s') = length (position s) + 1"
          "snake_length s' = snake_length s + 1"
          "score s' = score s + 1"
          "\<exists>f. food s' = Some f \<and> f \<noteq> target \<and> f \<notin> set (position s')"
          by (rule FalseE)+
      next
        fix c assume "next_cell s = Some c \<and> c \<noteq> target"
        with n have c: "c = path ! 1" by simp
        from m l p show "\<exists>s'. move s = Some (Inr s') \<and>
              position s' = c # butlast (position s) \<and>
              length (position s') = length (position s) \<and>
              snake_length s' = snake_length s \<and>
              score s' = score s \<and> food s' = food s"
          unfolding c by (intro exI[of _ ?s'] conjI)
      next
        assume "next_cell s = None"
        with n have False by simp
        then show "move s = Some (Inr s)" ..
      qed
    qed
  qed
qed

text \<open>
  C6 on the first two moves of the game above: the first reaches the food and
  grows, the second puts the head on \<open>(120, 80)\<close> and gives up the tail
  \<open>(100, 100)\<close>. In the third state the food lies under the body, the search
  returns no path and the snake stays.
\<close>

theorem move_growth_witness:
  "next_cell \<lparr>position = [(100, 100)], direction = (1, 0), snake_length = 1,
         food = Some (120, 100), score = 0, rng = sconst 0\<rparr> = Some (120, 100) \<and>
   move \<lparr>position = [(100, 100)], direction = (1, 0), snake_length = 1,
         food = Some (120, 100), score = 0, rng = sconst 0\<rparr> =
   Some (Inr \<lparr>position = [(120, 100), (100, 100)], direction = (1, 0), snake_length = 2,
         food = Some (0, 0), score = 1, rng = sconst 0\<rparr>) \<and>
   (\<exists>s'. move \<lparr>position = [(100, 100)], direction = (1, 0), snake_length = 1,
         food = Some (120, 100), score = 0, rng = sconst 0\<rparr> = Some (Inr s') \<and>
      position s' = [(120, 100), (100, 100)] \<and> snake_length s' = 2 \<and> score s' = 1) \<and>
   next_cell \<lparr>position = [(120, 100), (100, 100)], direction = (1, 0), snake_length = 2,
         food = Some (0, 0), score = 1, rng = sconst 0\<rparr> = Some (120, 80) \<and>
   (\<exists>s'. move \<lparr>position = [(120, 100), (100, 100)], direction = (1, 0), snake_length = 2,
         food = Some (0, 0), score = 1, rng = sconst 0\<rparr> = Some (Inr s') \<and>
      position s' = [(120, 80), (120, 100)] \<and> snake_length s' = 2 \<and> score s' = 1 \<and>
      food s' = Some (0, 0)) \<and>
   next_cell \<lparr>position = [(0, 0), (20, 0), (20, 20), (0, 20)], direction = (1, 0),
         snake_length = 4, food = Some (20, 0), score = 3, rng = sconst 0\<rparr> = None \<and>
   move \<lparr>position = [(0, 0), (20, 0), (20, 20), (0, 20)], direction = (1, 0),
         snake_length = 4, food = Some (20, 0), score = 3, rng = sconst 0\<rparr> =
     Some (Inr \<lparr>position = [(0, 0), (20, 0), (20, 20), (0, 20)], direction = (1, 0),
         snake_length = 4, food = Some (20, 0), score = 3, rng = sconst 0\<rparr>)"
proof -
  let ?A = "\<lparr>position = [(100, 100)], direction = (1, 0), snake_length = 1,
         food = Some (120, 100), score = 0, rng = sconst 0\<rparr>"
  let ?B = "\<lparr>position = [(120, 100), (100, 100)], direction = (1, 0), snake_length = 2,
         food = Some (0, 0), score = 1, rng = sconst 0\<rparr>"
  let ?C = "\<lparr>position = [(0, 0), (20, 0), (20, 20), (0, 20)], direction = (1, 0),
         snake_length = 4, food = Some (20, 0), score = 3, rng = sconst 0\<rparr>"
  have d: "food_draw ((next_draw ^^ 0) (rng ?A)) \<notin> set ((120, 100) # position ?A)"
    by (simp add: food_draw_def randint_def GRID_SIZE_def WIDTH_def HEIGHT_def)
  have nA: "next_cell ?A = Some (120, 100)" by (simp add: next_cell_def game_astar1)
  have nB: "next_cell ?B = Some (120, 80)" by (simp add: next_cell_def game_astar2)
  have "astar [(0, 0), (20, 0), (20, 20), (0, 20)] (0, 0) (20, 0) = Some (Inr None)" by code_simp
  then have nC: "next_cell ?C = None" by (simp add: next_cell_def)
  have A: "position ?A \<noteq> []" "food ?A = Some (120, 100)" by simp_all
  have B: "position ?B \<noteq> []" "food ?B = Some (0, 0)" by simp_all
  have C: "position ?C \<noteq> []" "food ?C = Some (20, 0)" by simp_all
  from move_growth[OF A] nA d have "\<exists>s'. move ?A = Some (Inr s')" by blast
  then obtain s' where m: "move ?A = Some (Inr s')" ..
  with move_growth[OF A] nA have
    "position s' = (120, 100) # position ?A \<and> snake_length s' = snake_length ?A + 1 \<and>
     score s' = score ?A + 1"
    by blast
  with m have a: "\<exists>s'. move ?A = Some (Inr s') \<and>
      position s' = [(120, 100), (100, 100)] \<and> snake_length s' = 2 \<and> score s' = 1"
    by (intro exI[of _ s']) simp
  have ne: "((120, 80) :: cell) \<noteq> (0, 0)" by simp
  from move_growth[OF B] nB ne have
    "\<exists>s'. move ?B = Some (Inr s') \<and> position s' = (120, 80) # butlast (position ?B) \<and>
       snake_length s' = snake_length ?B \<and> score s' = score ?B \<and> food s' = food ?B"
    by blast
  then have b: "\<exists>s'. move ?B = Some (Inr s') \<and>
      position s' = [(120, 80), (120, 100)] \<and> snake_length s' = 2 \<and> score s' = 1 \<and>
      food s' = Some (0, 0)"
    by simp
  from move_growth[OF C] nC have c: "move ?C = Some (Inr ?C)" by blast
  from nA nB nC a b c game_move1 show ?thesis by (intro conjI)
qed

subsection \<open>Moves that stay\<close>

text \<open>
  C7. When the search returns \<^verbatim>\<open>None\<close> or a path of fewer than 2 cells,
  \<^verbatim>\<open>move\<close> returns with the object unchanged: segments, direction, length,
  food, score (and the random number generator) are as before, and no exception
  is raised.
\<close>

theorem move_noop:
  assumes "position s = start # rest" and "food s = Some target"
    and "astar (position s) start target = Some (Inr None) \<or>
         (\<exists>path. astar (position s) start target = Some (Inr (Some path)) \<and> length path < 2)"
  shows "move s = Some (Inr s)"
  using assms by (rule move_stays)

text \<open>
  C7 on a snake whose head is shut in the corner by its own body (no path), and
  on a snake whose head is on the food (the path is the single cell).
\<close>

theorem move_noop_witness:
  "astar [(0, 0), (20, 0), (20, 20), (0, 20)] (0, 0) (100, 100) = Some (Inr None) \<and>
   move \<lparr>position = [(0, 0), (20, 0), (20, 20), (0, 20)], direction = (- 1, 0), snake_length = 4,
         food = Some (100, 100), score = 3, rng = sconst 0\<rparr> =
     Some (Inr \<lparr>position = [(0, 0), (20, 0), (20, 20), (0, 20)], direction = (- 1, 0),
         snake_length = 4, food = Some (100, 100), score = 3, rng = sconst 0\<rparr>) \<and>
   astar [(100, 100)] (100, 100) (100, 100) = Some (Inr (Some [(100, 100)])) \<and>
   move \<lparr>position = [(100, 100)], direction = (1, 0), snake_length = 1,
         food = Some (100, 100), score = 0, rng = sconst 0\<rparr> =
     Some (Inr \<lparr>position = [(100, 100)], direction = (1, 0), snake_length = 1,
         food = Some (100, 100), score = 0, rng = sconst 0\<rparr>)"
proof -
  have a: "astar [(0, 0), (20, 0), (20, 20), (0, 20)] (0, 0) (100, 100) = Some (Inr None)"
    by code_simp
  have b: "astar [(100, 100)] (100, 100) (100, 100) = Some (Inr (Some [(100, 100)]))"
    by code_simp
  from a b
    move_noop[of "\<lparr>position = [(0, 0), (20, 0), (20, 20), (0, 20)], direction = (- 1, 0),
         snake_length = 4, food = Some (100, 100), score = 3, rng = sconst 0\<rparr>"
       "(0, 0)" "[(20, 0), (20, 20), (0, 20)]" "(100, 100)"]
    move_noop[of "\<lparr>position = [(100, 100)], direction = (1, 0), snake_length = 1,
         food = Some (100, 100), score = 0, rng = sconst 0\<rparr>" "(100, 100)" "[]" "(100, 100)"]
  show ?thesis by simp
qed

subsection \<open>Collision\<close>

text \<open>
  C8. \<^verbatim>\<open>check_collision\<close> returns true exactly when the head lies outside the
  screen (a coordinate below 0, or x at or above \<open>WIDTH\<close>, or y at or above
  \<open>HEIGHT\<close>) or equals a segment at index 1 or later. The instances checked
  below: a head one cell left of the screen, a head one cell right of it, a head
  on another segment, and a head that collides with nothing.
\<close>

theorem check_collision_iff:
  assumes "position s = head # rest"
  shows "check_collision s =
           Inr (fst head < 0 \<or> WIDTH \<le> fst head \<or> snd head < 0 \<or> HEIGHT \<le> snd head \<or>
                head \<in> set rest)"
  using assms by (simp add: check_collision_def)

text \<open>The four instances of C8.\<close>

theorem check_collision_iff_witness:
  "check_collision \<lparr>position = [(- GRID_SIZE, 100)], direction = (- 1, 0), snake_length = 1,
       food = Some (0, 0), score = 0, rng = sconst 0\<rparr> = Inr True \<and>
   check_collision \<lparr>position = [(WIDTH, 100)], direction = (1, 0), snake_length = 1,
       food = Some (0, 0), score = 0, rng = sconst 0\<rparr> = Inr True \<and>
   check_collision \<lparr>position = [(100, 100), (120, 100), (120, 120), (100, 120), (100, 100)],
       direction = (0, - 1), snake_length = 5,
       food = Some (0, 0), score = 4, rng = sconst 0\<rparr> = Inr True \<and>
   check_collision \<lparr>position = [(100, 100), (120, 100)], direction = (- 1, 0), snake_length = 2,
       food = Some (0, 0), score = 1, rng = sconst 0\<rparr> = Inr False"
  using
    check_collision_iff [of "\<lparr>position = [(- GRID_SIZE, 100)], direction = (- 1, 0),
       snake_length = 1, food = Some (0, 0), score = 0, rng = sconst 0\<rparr>" "(- GRID_SIZE, 100)" "[]"]
    check_collision_iff [of "\<lparr>position = [(WIDTH, 100)], direction = (1, 0), snake_length = 1,
       food = Some (0, 0), score = 0, rng = sconst 0\<rparr>" "(WIDTH, 100)" "[]"]
    check_collision_iff [of "\<lparr>position = [(100, 100), (120, 100), (120, 120), (100, 120), (100, 100)],
       direction = (0, - 1), snake_length = 5,
       food = Some (0, 0), score = 4, rng = sconst 0\<rparr>" "(100, 100)"
       "[(120, 100), (120, 120), (100, 120), (100, 100)]"]
    check_collision_iff [of "\<lparr>position = [(100, 100), (120, 100)], direction = (- 1, 0),
       snake_length = 2, food = Some (0, 0), score = 1, rng = sconst 0\<rparr>" "(100, 100)" "[(120, 100)]"]
  by (simp add: WIDTH_def HEIGHT_def GRID_SIZE_def)

subsection \<open>The invariant of the segments\<close>

text \<open>
  C9. The segment sequence is never empty and \<open>length\<close> is the number of
  segments: after \<^verbatim>\<open>SnakeAI()\<close>, and after every \<^verbatim>\<open>move\<close> from a state where it
  held.
\<close>

theorem length_invariant:
  "(SnakeAI_init r = Some s \<longrightarrow> length_inv s) \<and>
   (length_inv s \<and> move s = Some (Inr s') \<longrightarrow> length_inv s')"
proof (intro conjI impI)
  assume "SnakeAI_init r = Some s"
  from generate_food_result[OF this[unfolded SnakeAI_init_def]]
  show "length_inv s" by (simp add: food_post_def length_inv_def)
next
  assume a: "length_inv s \<and> move s = Some (Inr s')"
  then obtain start rest where pos: "position s = start # rest"
    by (cases "position s") (auto simp: length_inv_def)
  from move_result[OF pos] a pos show "length_inv s'"
    by (auto simp: length_inv_def)
qed

text \<open>
  C9 on the game above: the invariant after the constructor, and after the move
  that grows the snake.
\<close>

theorem length_invariant_witness:
  "SnakeAI_init (6 ## 5 ## sconst 0) =
     Some \<lparr>position = [(100, 100)], direction = (1, 0), snake_length = 1,
           food = Some (120, 100), score = 0, rng = sconst 0\<rparr> \<and>
   length_inv \<lparr>position = [(100, 100)], direction = (1, 0), snake_length = 1,
           food = Some (120, 100), score = 0, rng = sconst 0\<rparr> \<and>
   move \<lparr>position = [(100, 100)], direction = (1, 0), snake_length = 1,
         food = Some (120, 100), score = 0, rng = sconst 0\<rparr> =
   Some (Inr \<lparr>position = [(120, 100), (100, 100)], direction = (1, 0), snake_length = 2,
         food = Some (0, 0), score = 1, rng = sconst 0\<rparr>) \<and>
   length_inv \<lparr>position = [(120, 100), (100, 100)], direction = (1, 0), snake_length = 2,
         food = Some (0, 0), score = 1, rng = sconst 0\<rparr>"
proof -
  let ?A = "\<lparr>position = [(100, 100)], direction = (1, 0), snake_length = 1,
         food = Some (120, 100), score = 0, rng = sconst 0\<rparr>"
  let ?B = "\<lparr>position = [(120, 100), (100, 100)], direction = (1, 0), snake_length = 2,
         food = Some (0, 0), score = 1, rng = sconst 0\<rparr>"
  from length_invariant[of "6 ## 5 ## sconst 0" ?A ?B] game_init game_move1
  have "length_inv ?A" by blast
  moreover from this length_invariant[of "6 ## 5 ## sconst 0" ?A ?B] game_move1
  have "length_inv ?B" by blast
  ultimately show ?thesis using game_init game_move1 by blast
qed

subsection \<open>The head stays inside the screen\<close>

text \<open>
  C10. A \<^verbatim>\<open>move\<close> from a state whose head is inside the screen leaves the head
  inside the screen: the new head is \<open>path ! 1\<close>, a cell that passed the test of
  lines 107 to 109. So in every state reached from \<^verbatim>\<open>SnakeAI()\<close> by moves the
  wall test of \<^verbatim>\<open>check_collision\<close> is false, and its result is the outcome of
  the test against the other segments.
\<close>

theorem head_stays_in_bounds:
  "(position s = head # rest \<and> in_bounds head \<and> move s = Some (Inr s') \<longrightarrow>
      (\<exists>head' rest'. position s' = head' # rest' \<and> in_bounds head')) \<and>
   (reachable s \<longrightarrow>
      (\<exists>head rest. position s = head # rest \<and> in_bounds head \<and>
         check_collision s = Inr (head \<in> set rest)))"
proof (intro conjI impI)
  assume a: "position s = head # rest \<and> in_bounds head \<and> move s = Some (Inr s')"
  then have pos: "position s = head # rest" and m: "move s = Some (Inr s')" by simp_all
  from move_result[OF pos m] show "\<exists>head' rest'. position s' = head' # rest' \<and> in_bounds head'"
  proof
    assume "s' = s"
    with a show ?thesis by blast
  next
    assume "\<exists>np. in_bounds np \<and> np \<notin> set (position s) \<and>
       (position s' = np # butlast (position s) \<and> snake_length s' = snake_length s \<and>
          score s' = score s \<and> food s' = food s \<and> food s \<noteq> Some np \<or>
        position s' = np # position s \<and> snake_length s' = snake_length s + 1 \<and>
          score s' = score s + 1 \<and> food s = Some np \<and>
          (\<exists>f. food s' = Some f \<and> f \<notin> set (position s') \<and> in_bounds f))"
    then show ?thesis by blast
  qed
next
  assume "reachable s"
  from reachable_inv[OF this] obtain head rest where
    pos: "position s = head # rest" and b: "in_bounds head"
    by (cases "position s") (auto simp: length_inv_def)
  from b have "check_collision s = Inr (head \<in> set rest)"
    using pos by (auto simp: check_collision_def in_bounds_def)
  with pos b show "\<exists>head rest. position s = head # rest \<and> in_bounds head \<and>
         check_collision s = Inr (head \<in> set rest)"
    by blast
qed

text \<open>
  C10 on the game above: the first move, and the state reached after two moves.
\<close>

theorem head_stays_in_bounds_witness:
  "in_bounds (100, 100) \<and>
   move \<lparr>position = [(100, 100)], direction = (1, 0), snake_length = 1,
         food = Some (120, 100), score = 0, rng = sconst 0\<rparr> =
   Some (Inr \<lparr>position = [(120, 100), (100, 100)], direction = (1, 0), snake_length = 2,
         food = Some (0, 0), score = 1, rng = sconst 0\<rparr>) \<and>
   reachable \<lparr>position = [(120, 80), (120, 100)], direction = (0, - 1), snake_length = 2,
         food = Some (0, 0), score = 1, rng = sconst 0\<rparr> \<and>
   (\<exists>head' rest'. position \<lparr>position = [(120, 100), (100, 100)], direction = (1, 0),
         snake_length = 2, food = Some (0, 0), score = 1, rng = sconst 0\<rparr> = head' # rest' \<and>
      in_bounds head') \<and>
   (\<exists>head rest. position \<lparr>position = [(120, 80), (120, 100)], direction = (0, - 1),
         snake_length = 2, food = Some (0, 0), score = 1, rng = sconst 0\<rparr> = head # rest \<and>
      in_bounds head \<and>
      check_collision \<lparr>position = [(120, 80), (120, 100)], direction = (0, - 1),
         snake_length = 2, food = Some (0, 0), score = 1, rng = sconst 0\<rparr> = Inr (head \<in> set rest))"
proof -
  let ?A = "\<lparr>position = [(100, 100)], direction = (1, 0), snake_length = 1,
         food = Some (120, 100), score = 0, rng = sconst 0\<rparr>"
  let ?B = "\<lparr>position = [(120, 100), (100, 100)], direction = (1, 0), snake_length = 2,
         food = Some (0, 0), score = 1, rng = sconst 0\<rparr>"
  let ?C = "\<lparr>position = [(120, 80), (120, 100)], direction = (0, - 1), snake_length = 2,
         food = Some (0, 0), score = 1, rng = sconst 0\<rparr>"
  have b: "in_bounds (100, 100)" by (simp add: in_bounds_def WIDTH_def HEIGHT_def)
  have pA: "position ?A = (100, 100) # []" by simp
  have rC: "reachable ?C"
    by (rule reachable_move[OF reachable_move[OF reachable_init[OF game_init] game_move1] game_move2])
  from head_stays_in_bounds[of ?A "(100, 100)" "[]" ?B] b pA game_move1
  have 1: "\<exists>head' rest'. position ?B = head' # rest' \<and> in_bounds head'" by blast
  from head_stays_in_bounds[of ?C "(120, 80)" "[(120, 100)]" ?C] rC
  have 2: "\<exists>head rest. position ?C = head # rest \<and> in_bounds head \<and>
      check_collision ?C = Inr (head \<in> set rest)" by blast
  from b game_move1 rC 1 2 show ?thesis by blast
qed

end
